theory Spec2Isabelle
  imports Main "HOL-Library.Word"
begin

unbundle bit_operations_syntax

section \<open>Bytes, buffers and error codes\<close>

text \<open>
  A byte of a buffer is a \<open>char\<close> (eight bits), so that the literal fragments of the
  source can be written as string literals. A buffer is the list of its bytes. Where the
  C code reads a NUL-terminated buffer without a length, the list holds the bytes before
  the terminator and a read at or past the end of the list sees the byte 0.
\<close>

type_synonym byte = char
type_synonym bytes = "char list"

text \<open>The error codes returned by the functions of sexputil.c (0, success, is \<open>Inr\<close>).
  \<open>GPG_ERR_OTHER\<close> stands for any code handed through from libgcrypt.\<close>

datatype gpg_error =
    GPG_ERR_INV_VALUE
  | GPG_ERR_INTERNAL
  | GPG_ERR_INV_SEXP
  | GPG_ERR_BAD_PUBKEY
  | GPG_ERR_WRONG_PUBKEY_ALGO
  | GPG_ERR_UNKNOWN_SEXP
  | GPG_ERR_DUP_VALUE
  | GPG_ERR_OTHER nat

definition peek :: "bytes \<Rightarrow> byte" where
  "peek s = (case s of [] \<Rightarrow> CHR 0x00 | c # _ \<Rightarrow> c)"

definition digitp :: "byte \<Rightarrow> bool" where
  "digitp c \<longleftrightarrow> 48 \<le> (of_char c :: nat) \<and> (of_char c :: nat) \<le> 57"

definition digit_val :: "byte \<Rightarrow> nat" where
  "digit_val c = (of_char c :: nat) - 48"

section \<open>keygrip_from_canon_sexp\<close>

text \<open>
  The libgcrypt object layer is external: parsing a buffer into an object
  (\<open>gcry_sexp_sscan\<close>) and computing the grip (\<open>gcry_pk_get_keygrip\<close>) are parameters.
  The calls made to the library are recorded in order, so that acquiring and releasing
  the parsed object is visible in the result.
\<close>

datatype gcry_call = Call_sexp_sscan | Call_pk_get_keygrip | Call_sexp_release

record 'h keygrip_api =
  gcry_sexp_sscan :: "bytes \<Rightarrow> gpg_error + 'h"
  gcry_pk_get_keygrip :: "'h \<Rightarrow> bytes option"

text \<open>
  \<open>grip\<close> is \<open>None\<close> for a null output pointer and \<open>Some old\<close> for a buffer holding
  \<open>old\<close>. The result is the return value (\<open>Inr\<close> with the grip written on success)
  and the library calls made.
\<close>

definition keygrip_from_canon_sexp ::
  "'h keygrip_api \<Rightarrow> bytes \<Rightarrow> bytes option \<Rightarrow> (gpg_error + bytes) \<times> gcry_call list" where
  "keygrip_from_canon_sexp api key grip =
     (case grip of
        None \<Rightarrow> (Inl GPG_ERR_INV_VALUE, [])
      | Some _ \<Rightarrow>
          (case gcry_sexp_sscan api key of
             Inl err \<Rightarrow> (Inl err, [Call_sexp_sscan])
           | Inr sexp \<Rightarrow>
               (case gcry_pk_get_keygrip api sexp of
                  None \<Rightarrow> (Inl GPG_ERR_INTERNAL,
                            [Call_sexp_sscan, Call_pk_get_keygrip, Call_sexp_release])
                | Some g \<Rightarrow> (Inr g,
                            [Call_sexp_sscan, Call_pk_get_keygrip, Call_sexp_release]))))"

section \<open>cmp_simple_canon_sexp\<close>

text \<open>
  \<open>strtoul (s, &endp, 10)\<close> of the C library, for a 64-bit \<open>unsigned long\<close>: white space
  is skipped, one sign is accepted, the digits are read; without a digit nothing is
  consumed and the value is 0; a value that does not fit is \<open>ULONG_MAX\<close>; a minus sign
  negates modulo \<open>2 ^ 64\<close>.
\<close>

definition isspace_c :: "byte \<Rightarrow> bool" where
  "isspace_c c \<longleftrightarrow> (of_char c :: nat) = 32 \<or> (9 \<le> (of_char c :: nat) \<and> (of_char c :: nat) \<le> 13)"

definition ULONG_MAX :: nat where
  "ULONG_MAX = 2 ^ 64 - 1"

fun strtoul_digits :: "nat \<Rightarrow> bool \<Rightarrow> bytes \<Rightarrow> nat \<times> bool \<times> bytes" where
  "strtoul_digits acc ovf [] = (acc, ovf, [])"
| "strtoul_digits acc ovf (c # s) =
     (if digitp c
      then (let v = acc * 10 + digit_val c
            in if ovf \<or> ULONG_MAX < v then strtoul_digits acc True s
               else strtoul_digits v False s)
      else (acc, ovf, c # s))"

definition strtoul :: "bytes \<Rightarrow> nat \<times> bytes" where
  "strtoul nptr =
     (let s1 = dropWhile isspace_c nptr;
          neg = (peek s1 = CHR ''-'');
          s2 = (if peek s1 = CHR ''-'' \<or> peek s1 = CHR ''+'' then tl s1 else s1)
      in if \<not> digitp (peek s2) then (0, nptr)
         else (case strtoul_digits 0 False s2 of
                 (v, ovf, endp) \<Rightarrow>
                   (if ovf then ULONG_MAX
                    else if neg then (2 ^ 64 - v) mod 2 ^ 64
                    else v, endp)))"

text \<open>The outcome of the comparator: a return value, or the fatal \<open>log_bug\<close>.\<close>

datatype cmp_result = Returns int | Log_bug

text \<open>The final loop: \<open>n1\<close> bytes of both buffers are compared.\<close>

fun cmp_loop :: "nat \<Rightarrow> bytes \<Rightarrow> bytes \<Rightarrow> int" where
  "cmp_loop 0 a b = 0"
| "cmp_loop (Suc n1) a b = (if peek a \<noteq> peek b then 1 else cmp_loop n1 (tl a) (tl b))"

text \<open>A null pointer is \<open>None\<close>.\<close>

definition cmp_simple_canon_sexp :: "bytes option \<Rightarrow> bytes option \<Rightarrow> cmp_result" where
  "cmp_simple_canon_sexp a_orig b_orig =
     (case (a_orig, b_orig) of
        (None, None) \<Rightarrow> Returns 0
      | (None, Some _) \<Rightarrow> Returns 1
      | (Some _, None) \<Rightarrow> Returns 1
      | (Some a, Some b) \<Rightarrow>
          (if peek a \<noteq> CHR ''('' \<or> peek b \<noteq> CHR ''('' then Log_bug
           else (case strtoul (tl a) of
                   (n1, a') \<Rightarrow>
                     (case strtoul (tl b) of
                        (n2, b') \<Rightarrow>
                          (if peek a' \<noteq> CHR '':'' \<or> peek b' \<noteq> CHR '':'' then Log_bug
                           else if n1 \<noteq> n2 then Returns 1
                           else Returns (cmp_loop n1 (tl a') (tl b')))))))"

section \<open>make_simple_sexp_from_hexstr\<close>

text \<open>
  Modelled from the spec: the macros \<open>hexdigitp\<close>, \<open>xtoi_1\<close> and \<open>xtoi_2\<close> and the
  helper \<open>smklen\<close> are not part of the file; the spec speaks of hex digits, of their
  nibbles and of a decimal ASCII length prefix ending in a colon.
\<close>

definition hexdigitp :: "byte \<Rightarrow> bool" where
  "hexdigitp c \<longleftrightarrow> digitp c
     \<or> (65 \<le> (of_char c :: nat) \<and> (of_char c :: nat) \<le> 70)
     \<or> (97 \<le> (of_char c :: nat) \<and> (of_char c :: nat) \<le> 102)"

definition xtoi_1 :: "byte \<Rightarrow> nat" where
  "xtoi_1 c =
     (if (of_char c :: nat) \<le> 57 then of_char c - 48
      else if (of_char c :: nat) \<le> 70 then of_char c - 65 + 10
      else of_char c - 97 + 10)"

definition xtoi_2 :: "byte \<Rightarrow> byte \<Rightarrow> nat" where
  "xtoi_2 a b = xtoi_1 a * 16 + xtoi_1 b"

text \<open>Decimal ASCII of a number, as \<open>snprintf\<close> with \<open>%u\<close> and \<open>smklen\<close> print it.\<close>

fun decimal :: "nat \<Rightarrow> bytes" where
  "decimal n =
     (if n < 10 then [char_of (48 + n)]
      else decimal (n div 10) @ [char_of (48 + n mod 10)])"

declare decimal.simps [simp del]

definition smklen :: "nat \<Rightarrow> bytes" where
  "smklen v = decimal v @ '':''"

text \<open>The first loop: \<open>for (n=0, s=line; hexdigitp (s); s++, n++)\<close>.\<close>

fun hex_scan :: "nat \<Rightarrow> bytes \<Rightarrow> nat" where
  "hex_scan n [] = n"
| "hex_scan n (c # s) = (if hexdigitp c then hex_scan (Suc n) s else n)"

text \<open>The last loop: \<open>for (; n > 1; n -= 2, s += 2) *p++ = xtoi_2 (s)\<close>.\<close>

fun hex_pairs :: "nat \<Rightarrow> bytes \<Rightarrow> bytes" where
  "hex_pairs n (a # b # s) =
     (if 1 < n then char_of (xtoi_2 a b) # hex_pairs (n - 2) s else [])"
| "hex_pairs n s = []"

text \<open>
  The result is the buffer (\<open>None\<close> for NULL) and the count stored at \<open>nscanned\<close>.
  \<open>alloc_ok\<close> says whether \<open>xtrymalloc\<close> succeeds. The terminating 0 written after
  the closing parenthesis is not part of the S-expression and is left out.
\<close>

definition make_simple_sexp_from_hexstr :: "bool \<Rightarrow> bytes \<Rightarrow> bytes option \<times> nat" where
  "make_simple_sexp_from_hexstr alloc_ok line =
     (let n = hex_scan 0 line in
      if n = 0 then (None, n)
      else
        (let len = nat (int (n + 1) AND NOT 1) div 2;
             numbuf = smklen len
         in if \<not> alloc_ok then (None, n)
            else (Some (''('' @ numbuf
                        @ (if odd n
                           then char_of (xtoi_1 (peek line)) # hex_pairs (n - 1) (tl line)
                           else hex_pairs n line)
                        @ '')''), n)))"

section \<open>get_pk_algo_from_key\<close>

text \<open>
  The object accessors of libgcrypt and its algorithm registry are parameters, and so are
  the two identifiers \<open>GCRY_PK_ECC\<close> and \<open>GCRY_PK_EDDSA\<close> of its header. An accessor
  that returns NULL returns \<open>None\<close>; \<open>gcry_sexp_nth_data\<close> returns the bytes of the
  element, whose number is the length stored at its last argument.
\<close>

record 'h sexp_api =
  gcry_sexp_nth :: "'h \<Rightarrow> nat \<Rightarrow> 'h option"
  gcry_sexp_nth_data :: "'h \<Rightarrow> nat \<Rightarrow> bytes option"
  gcry_sexp_find_token :: "'h \<Rightarrow> bytes \<Rightarrow> 'h option"
  gcry_sexp_length :: "'h \<Rightarrow> int"
  gcry_pk_map_name :: "bytes \<Rightarrow> int"
  GCRY_PK_ECC :: int
  GCRY_PK_EDDSA :: int

text \<open>A buffer read as a C string ends before its first 0 byte.\<close>

definition c_string :: "bytes \<Rightarrow> bytes" where
  "c_string s = takeWhile (\<lambda>c. c \<noteq> CHR 0x00) s"

text \<open>The loop over the flags list, from index \<open>i\<close> down to 1.\<close>

fun eddsa_flag_loop :: "'h sexp_api \<Rightarrow> 'h \<Rightarrow> nat \<Rightarrow> bool" where
  "eddsa_flag_loop api l1 0 = False"
| "eddsa_flag_loop api l1 (Suc i) =
     (case gcry_sexp_nth_data api l1 (Suc i) of
        None \<Rightarrow> eddsa_flag_loop api l1 i
      | Some s \<Rightarrow>
          (if length s = 5 \<and> s = ''eddsa'' then True else eddsa_flag_loop api l1 i))"

definition get_pk_algo_from_key :: "'h sexp_api \<Rightarrow> 'h \<Rightarrow> int" where
  "get_pk_algo_from_key api key =
     (case gcry_sexp_nth api key 1 of
        None \<Rightarrow> 0
      | Some list \<Rightarrow>
          (case gcry_sexp_nth_data api list 0 of
             None \<Rightarrow> 0
           | Some s \<Rightarrow>
               (if 6 \<le> length s then 0
                else
                  (let algo = gcry_pk_map_name api (c_string s) in
                   if algo = GCRY_PK_ECC api
                   then (case gcry_sexp_find_token api list ''flags'' of
                           None \<Rightarrow> algo
                         | Some l1 \<Rightarrow>
                             (if eddsa_flag_loop api l1 (nat (gcry_sexp_length api l1 - 1))
                              then GCRY_PK_EDDSA api else algo))
                   else algo))))"

text \<open>The variant on a canonical buffer; \<open>sscan\<close> is \<open>gcry_sexp_sscan\<close>.\<close>

definition get_pk_algo_from_canon_sexp ::
  "'h sexp_api \<Rightarrow> (bytes \<Rightarrow> gpg_error + 'h) \<Rightarrow> bytes \<Rightarrow> int" where
  "get_pk_algo_from_canon_sexp api sscan keydata =
     (case sscan keydata of
        Inl err \<Rightarrow> 0
      | Inr sexp \<Rightarrow> get_pk_algo_from_key api sexp)"


section \<open>Canonical S-expressions\<close>

text \<open>
  Modelled from the spec: the data model of the spec. A canonical S-expression is a
  data token, the decimal length, a colon and that many raw bytes, or a list, an
  opening parenthesis, canonical S-expressions and a closing parenthesis. \<open>canon\<close> is
  the byte sequence of a tree; these byte sequences are the well-formed inputs.
\<close>

datatype sexp = Atom bytes | SList "sexp list"

fun canon :: "sexp \<Rightarrow> bytes" where
  "canon (Atom d) = decimal (length d) @ '':'' @ d"
| "canon (SList xs) = ''('' @ concat (map canon xs) @ '')''"

text \<open>
  A small library on trees, used to run the bridge on concrete keys: elements are
  counted from 0, the registry knows \<open>rsa\<close> (1) and \<open>ecc\<close> (18).
\<close>

definition sample_nth :: "sexp \<Rightarrow> nat \<Rightarrow> sexp option" where
  "sample_nth x i =
     (case x of
        Atom d \<Rightarrow> None
      | SList xs \<Rightarrow> (if i < length xs then Some (xs ! i) else None))"

definition sample_nth_data :: "sexp \<Rightarrow> nat \<Rightarrow> bytes option" where
  "sample_nth_data x i =
     (case sample_nth x i of Some (Atom d) \<Rightarrow> Some d | _ \<Rightarrow> None)"

definition sample_find_token :: "sexp \<Rightarrow> bytes \<Rightarrow> sexp option" where
  "sample_find_token x t =
     (case x of
        Atom d \<Rightarrow> None
      | SList xs \<Rightarrow> find (\<lambda>y. sample_nth_data y 0 = Some t) xs)"

definition sample_length :: "sexp \<Rightarrow> int" where
  "sample_length x = (case x of Atom d \<Rightarrow> 0 | SList xs \<Rightarrow> int (length xs))"

definition sample_map_name :: "bytes \<Rightarrow> int" where
  "sample_map_name s = (if s = ''rsa'' then 1 else if s = ''ecc'' then 18 else 0)"

definition sample_api :: "sexp sexp_api" where
  "sample_api =
     \<lparr> gcry_sexp_nth = sample_nth, gcry_sexp_nth_data = sample_nth_data,
       gcry_sexp_find_token = sample_find_token, gcry_sexp_length = sample_length,
       gcry_pk_map_name = sample_map_name, GCRY_PK_ECC = 18, GCRY_PK_EDDSA = 303 \<rparr>"

definition sample_ed_key :: sexp where
  "sample_ed_key =
     SList [Atom ''public-key'',
            SList [Atom ''ecc'',
                   SList [Atom ''curve'', Atom ''Ed25519''],
                   SList [Atom ''flags'', Atom ''eddsa''],
                   SList [Atom ''q'', Atom ''abc'']]]"

section \<open>The tokenizers\<close>

text \<open>The digit loop of the tokenizers:
  \<open>for (n=0; digit; s++) n = n*10 + (*s - '0')\<close>.\<close>

fun scan_digits :: "nat \<Rightarrow> bytes \<Rightarrow> nat \<times> bytes" where
  "scan_digits acc [] = (acc, [])"
| "scan_digits acc (c # s) =
     (if digitp c then scan_digits (acc * 10 + digit_val c) s else (acc, c # s))"

text \<open>
  Modelled from the spec: the tokenizer functions \<open>parse_sexp\<close> (on a buffer with a
  length) and \<open>snext\<close>, \<open>smatch\<close>, \<open>sskip\<close> (on a buffer without one) are not part
  of the file. The spec gives the tokenizer on a cursor (buffer, remaining length,
  depth). A data token is a decimal length prefix, a colon and that many bytes; it is
  malformed when the prefix is missing or not numeric or when the buffer is shorter than
  the stated length. \<open>data_token\<close> yields the bytes of the token and the buffer after
  it.
\<close>

definition data_token :: "bytes \<Rightarrow> (bytes \<times> bytes) option" where
  "data_token s =
     (if \<not> digitp (peek s) then None
      else (case scan_digits 0 s of
              (vlen, s') \<Rightarrow>
                (if peek s' \<noteq> CHR '':'' \<or> length (tl s') < vlen then None
                 else Some (take vlen (tl s'), drop vlen (tl s')))))"

text \<open>
  \<open>parse_sexp\<close>: an opening parenthesis raises the depth, a closing one lowers it and
  fails at depth 0, where it matches no opening one; the end of the buffer is premature,
  and fails, inside a list; at depth 0 the end of the buffer yields no token and leaves
  the cursor as it is. Every failure is the malformed-S-expression error. The token is
  \<open>None\<close> where the source sees a null \<open>tok\<close>, at a parenthesis and at the end, and
  the bytes of the data otherwise.
\<close>

record cursor =
  buf :: bytes
  depth :: int

definition parse_sexp :: "cursor \<Rightarrow> gpg_error + (cursor \<times> bytes option)" where
  "parse_sexp c =
     (if buf c = [] then (if depth c \<noteq> 0 then Inl GPG_ERR_INV_SEXP else Inr (c, None))
      else if peek (buf c) = CHR ''(''
      then Inr (\<lparr> buf = tl (buf c), depth = depth c + 1 \<rparr>, None)
      else if peek (buf c) = CHR '')''
      then (if depth c = 0 then Inl GPG_ERR_INV_SEXP
            else Inr (\<lparr> buf = tl (buf c), depth = depth c - 1 \<rparr>, None))
      else (case data_token (buf c) of
              None \<Rightarrow> Inl GPG_ERR_INV_SEXP
            | Some (tok, s) \<Rightarrow> Inr (\<lparr> buf = s, depth = depth c \<rparr>, Some tok)))"

text \<open>
  \<open>snext\<close> reads a length prefix and returns the length and the position after the
  colon; the source takes the length 0 for an invalid S-expression. \<open>smatch\<close> compares
  a token of the given length with a literal and steps over it on a match.
\<close>

definition snext :: "bytes \<Rightarrow> nat \<times> bytes" where
  "snext s =
     (case scan_digits 0 s of
        (n, s') \<Rightarrow> (if n = 0 \<or> peek s' \<noteq> CHR '':'' then (0, s) else (n, tl s')))"

definition smatch :: "bytes \<Rightarrow> nat \<Rightarrow> bytes \<Rightarrow> bool \<times> bytes" where
  "smatch s n token =
     (if n \<noteq> length token \<or> take n s \<noteq> token then (False, s) else (True, drop n s))"

lemma scan_digits_length: "scan_digits acc s = (n, s') \<Longrightarrow> length s' \<le> length s"
  by (induction s arbitrary: acc) (auto split: if_splits intro: le_SucI)

lemma data_token_length: "data_token s = Some (tok, s') \<Longrightarrow> length s' < length s"
  by (cases "scan_digits 0 s"; cases "snd (scan_digits 0 s)")
    (auto simp: data_token_def peek_def split: if_splits dest!: scan_digits_length)

text \<open>
  \<open>sskip\<close> is the list skipper of the spec: it tokenizes, lists and all, until the
  depth has come back to the starting depth minus 1, and fails with the
  malformed-S-expression error when the input ends before.
\<close>

function sskip_from :: "int \<Rightarrow> bytes \<Rightarrow> int \<Rightarrow> gpg_error + (bytes \<times> int)" where
  "sskip_from d0 s d =
     (if d < d0 then Inr (s, d)
      else if peek s = CHR ''('' then sskip_from d0 (tl s) (d + 1)
      else if peek s = CHR '')'' then sskip_from d0 (tl s) (d - 1)
      else (case data_token s of
              None \<Rightarrow> Inl GPG_ERR_INV_SEXP
            | Some (tok, s') \<Rightarrow> sskip_from d0 s' d))"
  by pat_completeness auto
termination
proof (relation "measure (\<lambda>(d0, s, d). length s)", goal_cases)
  case 1
  show ?case by simp
next
  case (2 d0 s d)
  then show ?case by (cases s) (auto simp: peek_def)
next
  case (3 d0 s d)
  then show ?case by (cases s) (auto simp: peek_def)
next
  case (4 d0 s d x tok s')
  then have "length s' < length s" using data_token_length [of s tok s'] by simp
  then show ?case by simp
qed

declare sskip_from.simps [simp del]

definition sskip :: "bytes \<Rightarrow> int \<Rightarrow> gpg_error + (bytes \<times> int)" where
  "sskip s d = sskip_from d s d"

section \<open>hash_algo_from_sigval\<close>

text \<open>
  \<open>gcry_md_map_name\<close>, the hash-algorithm registry of libgcrypt, is a parameter. The
  argument is \<open>None\<close> for a null pointer. The local buffer has 50 bytes.
\<close>

definition hash_algo_from_sigval :: "(bytes \<Rightarrow> int) \<Rightarrow> bytes option \<Rightarrow> int" where
  "hash_algo_from_sigval gcry_md_map_name sigval =
     (case sigval of
        None \<Rightarrow> 0
      | Some s0 \<Rightarrow>
     if peek s0 \<noteq> CHR ''('' then 0
     else (case snext (tl s0) of (n1, s1) \<Rightarrow>
     if n1 = 0 then 0
     else (case smatch s1 n1 ''sig-val'' of (ok1, s2) \<Rightarrow>
     if \<not> ok1 then 0
     else if peek s2 \<noteq> CHR ''('' then 0
     else (case sskip (tl s2) 1 of
             Inl err \<Rightarrow> 0
           | Inr (s3, d) \<Rightarrow>
     if d \<noteq> 0 then 0
     else if peek s3 \<noteq> CHR ''('' then 0
     else (case snext (tl s3) of (n2, s4) \<Rightarrow>
     if n2 = 0 then 0
     else (case smatch s4 n2 ''hash'' of (ok2, s5) \<Rightarrow>
     if \<not> ok2 then 0
     else (case snext s5 of (n, s6) \<Rightarrow>
     if n = 0 \<or> 50 \<le> n + 1 then 0
     else gcry_md_map_name (c_string (take n s6)))))))))"

text \<open>A registry to run the extractor on concrete values.\<close>

definition sample_md_map_name :: "bytes \<Rightarrow> int" where
  "sample_md_map_name s =
     (if s = ''md5'' then 1 else if s = ''sha1'' then 2 else if s = ''sha256'' then 8 else 0)"

section \<open>make_canon_sexp_from_rsa_pk\<close>

text \<open>The loop \<open>for (; mlen && !*m; mlen--, m++)\<close> that removes leading zero bytes.\<close>

fun strip_zeros :: "bytes \<Rightarrow> bytes" where
  "strip_zeros [] = []"
| "strip_zeros (c # s) = (if c = CHR 0x00 then strip_zeros s else c # s)"

text \<open>\<open>if (!mlen || (m[0] & 0x80)) m_extra = 1\<close>.\<close>

definition mpi_extra :: "bytes \<Rightarrow> nat" where
  "mpi_extra m = (if m = [] \<or> (of_char (hd m) :: 8 word) AND 0x80 \<noteq> 0 then 1 else 0)"

text \<open>\<open>(unsigned int)mlen+m_extra\<close>: the length is cut to the 32 bits of an
  \<open>unsigned int\<close> and the sum is taken in that type.\<close>

definition uint_sum :: "nat \<Rightarrow> nat \<Rightarrow> nat" where
  "uint_sum mlen extra = (mlen mod 2 ^ 32 + extra) mod 2 ^ 32"

definition part1 :: bytes where "part1 = ''(10:public-key(3:rsa(1:n''"
definition part2 :: bytes where "part2 = '')(1:e''"
definition part3 :: bytes where "part3 = '')))''"

text \<open>
  The result is \<open>None\<close> when \<open>xtrymalloc\<close> fails (\<open>alloc_ok\<close> false), and otherwise
  the bytes written to the buffer and the length stored at \<open>r_len\<close>, the distance the
  write pointer has moved.
\<close>

definition make_canon_sexp_from_rsa_pk :: "bool \<Rightarrow> bytes \<Rightarrow> bytes \<Rightarrow> (bytes \<times> nat) option" where
  "make_canon_sexp_from_rsa_pk alloc_ok m_arg e_arg =
     (let m = strip_zeros m_arg;
          e = strip_zeros e_arg;
          m_extra = mpi_extra m;
          e_extra = mpi_extra e;
          mlen_str = decimal (uint_sum (length m) m_extra) @ '':'';
          elen_str = decimal (uint_sum (length e) e_extra) @ '':''
      in if \<not> alloc_ok then None
         else Some (part1 @ mlen_str @ (if m_extra \<noteq> 0 then [CHR 0x00] else []) @ m
                    @ part2 @ elen_str @ (if e_extra \<noteq> 0 then [CHR 0x00] else []) @ e
                    @ part3,
                    length part1 + length mlen_str + m_extra + length m
                    + length part2 + length elen_str + e_extra + length e
                    + length part3))"

text \<open>
  The canonical bytes of a value, for stating what the builder writes: the leading zero
  bytes removed and one zero byte put in front where the source sets \<open>m_extra\<close>.
\<close>

definition mpi_canon :: "bytes \<Rightarrow> bytes" where
  "mpi_canon m =
     (if mpi_extra (strip_zeros m) \<noteq> 0 then [CHR 0x00] else []) @ strip_zeros m"

section \<open>get_rsa_pk_from_canon_sexp\<close>

lemma parse_sexp_length:
  "parse_sexp c = Inr (c', tok) \<Longrightarrow> length (buf c') \<le> length (buf c)"
  by (cases "buf c")
    (auto simp: parse_sexp_def split: if_splits option.splits dest!: data_token_length)

lemma parse_sexp_shrinks:
  "parse_sexp c = Inr (c', tok) \<Longrightarrow> depth c' \<noteq> 0 \<Longrightarrow> length (buf c') < length (buf c)"
  by (cases "buf c")
    (auto simp: parse_sexp_def split: if_splits option.splits dest!: data_token_length)

text \<open>
  The inner loop that skips to the end of the list:
  \<open>while (!(err = parse_sexp (...)) && depth && depth >= last_depth2) ;\<close>.
\<close>

function skip_to_end :: "int \<Rightarrow> cursor \<Rightarrow> gpg_error + cursor" where
  "skip_to_end last_depth2 c =
     (case parse_sexp c of
        Inl err \<Rightarrow> Inl err
      | Inr (c', tok) \<Rightarrow>
          (if depth c' \<noteq> 0 \<and> last_depth2 \<le> depth c' then skip_to_end last_depth2 c'
           else Inr c'))"
  by pat_completeness auto
termination
  by (relation "measure (\<lambda>(ld, c). length (buf c))") (auto dest: parse_sexp_shrinks)

declare skip_to_end.simps [simp del]

text \<open>
  The state of the walk: the cursor and the two components found so far, \<open>None\<close> for
  a null pointer and the bytes from the pointer up to the stored length otherwise.
\<close>

record walk =
  cur :: cursor
  rsa_n :: "bytes option"
  rsa_e :: "bytes option"

text \<open>Strip off leading zero bytes and save: \<open>*mpi = tok; *mpi_len = toklen\<close>.\<close>

definition bind_mpi :: "walk \<Rightarrow> byte \<Rightarrow> bytes \<Rightarrow> walk" where
  "bind_mpi w name tok =
     (if name = CHR ''n'' then w\<lparr> rsa_n := Some (strip_zeros tok) \<rparr>
      else if name = CHR ''e'' then w\<lparr> rsa_e := Some (strip_zeros tok) \<rparr>
      else w)"

definition mpi_known :: "byte \<Rightarrow> bool" where
  "mpi_known name \<longleftrightarrow> name = CHR ''n'' \<or> name = CHR ''e''"

definition mpi_get :: "walk \<Rightarrow> byte \<Rightarrow> bytes option" where
  "mpi_get w name =
     (if name = CHR ''n'' then rsa_n w else if name = CHR ''e'' then rsa_e w else None)"

text \<open>The block \<open>if (tok && toklen == 1) { ... }\<close> on the name token \<open>tok2\<close>:
  \<open>mpi_known\<close> is \<open>mpi\<close> being set by the switch, \<open>mpi_get\<close> is \<open>*mpi\<close>.\<close>

definition walk_name :: "walk \<Rightarrow> cursor \<Rightarrow> bytes option \<Rightarrow> gpg_error + (walk \<times> cursor)" where
  "walk_name w c2 tok2 =
     (if tok2 \<noteq> None \<and> length (the tok2) = 1
      then
        (let name = hd (the tok2) in
         if mpi_known name \<and> mpi_get w name \<noteq> None then Inl GPG_ERR_DUP_VALUE
         else
           (case parse_sexp c2 of
              Inl err \<Rightarrow> Inl err
            | Inr (c3, tok3) \<Rightarrow>
                (if tok3 \<noteq> None \<and> mpi_known name
                 then Inr (bind_mpi w name (the tok3), c3)
                 else Inr (w, c3))))
      else Inr (w, c2))"

text \<open>
  The body of the outer loop on the cursor \<open>c1\<close> and the token \<open>tok\<close> of the loop
  condition: the name, the value, and the skip to the end of the list.
\<close>

definition walk_body :: "walk \<Rightarrow> cursor \<Rightarrow> bytes option \<Rightarrow> gpg_error + walk" where
  "walk_body w c1 tok =
     (if tok \<noteq> None then Inl GPG_ERR_UNKNOWN_SEXP
      else
        (case parse_sexp c1 of
           Inl err \<Rightarrow> Inl err
         | Inr (c2, tok2) \<Rightarrow>
             (case walk_name w c2 tok2 of
                Inl err \<Rightarrow> Inl err
              | Inr (w', c4) \<Rightarrow>
                  (case skip_to_end (depth c4) c4 of
                     Inl err \<Rightarrow> Inl err
                   | Inr c5 \<Rightarrow> Inr (w'\<lparr> cur := c5 \<rparr>)))))"

lemma skip_to_end_length:
  "skip_to_end ld c = Inr c' \<Longrightarrow> length (buf c') \<le> length (buf c)"
proof (induction ld c rule: skip_to_end.induct)
  case (1 ld c)
  from "1.prems" obtain c1 tok where p: "parse_sexp c = Inr (c1, tok)"
    by (subst (asm) skip_to_end.simps) (auto split: sum.splits)
  have le: "length (buf c1) \<le> length (buf c)" using p by (rule parse_sexp_length)
  show ?case
  proof (cases "depth c1 \<noteq> 0 \<and> ld \<le> depth c1")
    case True
    then have "skip_to_end ld c1 = Inr c'"
      using "1.prems" p by (subst (asm) skip_to_end.simps) simp
    then have "length (buf c') \<le> length (buf c1)"
      using "1.IH" [OF p refl True] by simp
    then show ?thesis using le by simp
  next
    case False
    then have "c' = c1"
      using "1.prems" p by (subst (asm) skip_to_end.simps) auto
    then show ?thesis using le by simp
  qed
qed

lemma walk_name_length:
  "walk_name w c2 tok2 = Inr (w', c4) \<Longrightarrow> length (buf c4) \<le> length (buf c2)"
  by (auto simp: walk_name_def Let_def split: if_splits sum.splits dest: parse_sexp_length)

lemma walk_body_length:
  assumes "walk_body w c1 tok = Inr w'"
  shows "length (buf (cur w')) \<le> length (buf c1)"
proof -
  from assms obtain c2 tok2 where p2: "parse_sexp c1 = Inr (c2, tok2)"
    by (auto simp: walk_body_def split: if_splits sum.splits)
  from assms p2 obtain w2 c4 where n: "walk_name w c2 tok2 = Inr (w2, c4)"
    by (auto simp: walk_body_def split: if_splits sum.splits)
  from assms p2 n obtain c5 where
    sk: "skip_to_end (depth c4) c4 = Inr c5" and w': "w' = w2\<lparr> cur := c5 \<rparr>"
    by (auto simp: walk_body_def split: if_splits sum.splits)
  have "length (buf c5) \<le> length (buf c4)" using sk by (rule skip_to_end_length)
  moreover have "length (buf c4) \<le> length (buf c2)" using n by (rule walk_name_length)
  moreover have "length (buf c2) \<le> length (buf c1)" using p2 by (rule parse_sexp_length)
  ultimately show ?thesis using w' by simp
qed

text \<open>
  The outer loop:
  \<open>while (!(err = parse_sexp (...)) && depth && depth >= last_depth1) { ... }\<close>.
\<close>

function rsa_walk :: "int \<Rightarrow> walk \<Rightarrow> gpg_error + walk" where
  "rsa_walk last_depth1 w =
     (case parse_sexp (cur w) of
        Inl err \<Rightarrow> Inl err
      | Inr (c1, tok) \<Rightarrow>
          (if depth c1 \<noteq> 0 \<and> last_depth1 \<le> depth c1
           then (case walk_body w c1 tok of
                   Inl err \<Rightarrow> Inl err
                 | Inr w' \<Rightarrow> rsa_walk last_depth1 w')
           else Inr (w\<lparr> cur := c1 \<rparr>)))"
  by pat_completeness auto
termination
proof (relation "measure (\<lambda>(ld, w). length (buf (cur w)))", goal_cases)
  case 1
  show ?case by simp
next
  case (2 ld w x c1 tok w')
  then have "length (buf c1) < length (buf (cur w))"
    using parse_sexp_shrinks [of "cur w" c1 tok] by simp
  moreover have "length (buf (cur w')) \<le> length (buf c1)"
    using 2 walk_body_length [of w c1 tok w'] by simp
  ultimately show ?case by simp
qed

declare rsa_walk.simps [simp del]

text \<open>
  The result is the error code, or the two byte ranges stored at \<open>r_n\<close>, \<open>r_nlen\<close>
  and \<open>r_e\<close>, \<open>r_elen\<close>.
\<close>

definition rsa_result :: "walk \<Rightarrow> gpg_error + (bytes \<times> bytes)" where
  "rsa_result w =
     (if rsa_n w = None \<or> the (rsa_n w) = [] \<or> rsa_e w = None \<or> the (rsa_e w) = []
      then Inl GPG_ERR_BAD_PUBKEY
      else Inr (the (rsa_n w), the (rsa_e w)))"

definition get_rsa_pk_from_canon_sexp :: "bytes \<Rightarrow> gpg_error + (bytes \<times> bytes)" where
  "get_rsa_pk_from_canon_sexp keydata =
     (case parse_sexp \<lparr> buf = keydata, depth = 0 \<rparr> of
        Inl err \<Rightarrow> Inl err
      | Inr (c1, tok1) \<Rightarrow>
     (case parse_sexp c1 of
        Inl err \<Rightarrow> Inl err
      | Inr (c2, tok2) \<Rightarrow>
     if tok2 = None \<or> length (the tok2) \<noteq> 10 \<or> the tok2 \<noteq> ''public-key''
     then Inl GPG_ERR_BAD_PUBKEY
     else
     (case parse_sexp c2 of
        Inl err \<Rightarrow> Inl err
      | Inr (c3, tok3) \<Rightarrow>
     (case parse_sexp c3 of
        Inl err \<Rightarrow> Inl err
      | Inr (c4, tok4) \<Rightarrow>
     if tok4 = None \<or> length (the tok4) \<noteq> 3 \<or> the tok4 \<noteq> ''rsa''
     then Inl GPG_ERR_WRONG_PUBKEY_ALGO
     else
     (case rsa_walk (depth c4) \<lparr> cur = c4, rsa_n = None, rsa_e = None \<rparr> of
        Inl err \<Rightarrow> Inl err
      | Inr w \<Rightarrow> rsa_result w)))))"


section \<open>Keys of the expected shape\<close>

text \<open>
  The inputs the extractor is written for: the list \<open>public-key\<close> holding the list
  \<open>rsa\<close>, whose further elements are lists that start with a name token and a value
  token and may go on with any well-formed elements. \<open>rsa_key\<close> is the canonical byte
  sequence of such a key, followed by any bytes \<open>t\<close>. \<open>bind_all\<close> runs through the
  components as the walk does; it serves the proofs only.
\<close>

type_synonym component = "bytes \<times> bytes \<times> sexp list"

definition component_bytes :: "component \<Rightarrow> bytes" where
  "component_bytes s = (case s of (name, v, ex) \<Rightarrow> canon (SList (Atom name # Atom v # ex)))"

definition rsa_key :: "component list \<Rightarrow> bytes \<Rightarrow> bytes" where
  "rsa_key sibs t = ''(10:public-key(3:rsa'' @ concat (map component_bytes sibs) @ ''))'' @ t"

definition wanted :: "bytes \<Rightarrow> bool" where
  "wanted name \<longleftrightarrow> name = ''n'' \<or> name = ''e''"

fun bind_all :: "bytes option \<times> bytes option \<Rightarrow> component list
    \<Rightarrow> gpg_error + (bytes option \<times> bytes option)" where
  "bind_all ne [] = Inr ne"
| "bind_all (n, e) ((name, v, ex) # sibs) =
     (if name = ''n'' then (if n \<noteq> None then Inl GPG_ERR_DUP_VALUE
                           else bind_all (Some (strip_zeros v), e) sibs)
      else if name = ''e'' then (if e \<noteq> None then Inl GPG_ERR_DUP_VALUE
                                else bind_all (n, Some (strip_zeros v)) sibs)
      else bind_all (n, e) sibs)"

section \<open>Theorems\<close>

subsection \<open>Auxiliary facts\<close>

lemma and_minus_two: "(x::int) AND - 2 = 2 * (x div 2)"
proof (rule bit_eqI)
  fix n show "bit (x AND - 2) n = bit (2 * (x div 2)) n"
  proof (cases n)
    case 0 then show ?thesis by (simp add: bit_0 even_and_iff)
  next
    case (Suc m)
    have h: "bit (- 2 :: int) (Suc m)" by (simp add: bit_Suc)
    have l: "bit (x AND - 2) (Suc m) = bit x (Suc m)" using h by (simp add: bit_and_iff)
    have r: "bit (2 * (x div 2)) (Suc m) = bit x (Suc m)" by (simp add: bit_double_iff bit_Suc)
    show ?thesis unfolding Suc l r ..
  qed
qed

lemma hex_len: "nat (int x AND NOT 1) div 2 = x div 2"
  by (simp add: and_minus_two nat_mult_distrib nat_div_distrib)

lemma hex_scan_takeWhile: "hex_scan n s = n + length (takeWhile hexdigitp s)"
  by (induction s arbitrary: n) auto

lemma make_simple_sexp_from_hexstr_alt:
  "make_simple_sexp_from_hexstr alloc_ok line =
     (let n = length (takeWhile hexdigitp line) in
      if n = 0 \<or> \<not> alloc_ok then (None, n)
      else (Some (''('' @ smklen ((n + 1) div 2)
                  @ (if odd n
                     then char_of (xtoi_1 (peek line)) # hex_pairs (n - 1) (tl line)
                     else hex_pairs n line)
                  @ '')''), n))"
  unfolding make_simple_sexp_from_hexstr_def hex_len hex_scan_takeWhile
  by (simp add: Let_def)

lemma xtoi_2_zero: "xtoi_2 (CHR ''0'') a = xtoi_1 a"
  by (simp add: xtoi_2_def xtoi_1_def)

lemma hexdigitp_zero: "hexdigitp (CHR ''0'')"
  by (simp add: hexdigitp_def digitp_def)

lemma eddsa_flag_loop_iff:
  "eddsa_flag_loop api l1 k \<longleftrightarrow>
     (\<exists>i. 0 < i \<and> i \<le> k \<and> gcry_sexp_nth_data api l1 i = Some ''eddsa'')"
proof (induction k)
  case 0
  then show ?case by simp
next
  case (Suc k)
  show ?case
  proof (cases "gcry_sexp_nth_data api l1 (Suc k) = Some ''eddsa''")
    case True
    then show ?thesis by auto
  next
    case False
    have "eddsa_flag_loop api l1 (Suc k) = eddsa_flag_loop api l1 k"
      using False by (auto split: option.splits)
    moreover have "(\<exists>i. 0 < i \<and> i \<le> Suc k \<and> gcry_sexp_nth_data api l1 i = Some ''eddsa'')
        \<longleftrightarrow> (\<exists>i. 0 < i \<and> i \<le> k \<and> gcry_sexp_nth_data api l1 i = Some ''eddsa'')"
      using False by (metis le_SucE le_SucI)
    ultimately show ?thesis using Suc.IH by simp
  qed
qed

lemma digit_char: "k < 10 \<Longrightarrow> digitp (char_of (48 + k)) \<and> digit_val (char_of (48 + k)) = k"
  by (simp add: digitp_def digit_val_def)

lemma decimal_digits: "c \<in> set (decimal n) \<Longrightarrow> digitp c"
proof (induction n arbitrary: c rule: decimal.induct)
  case (1 n)
  show ?case
  proof (cases "n < 10")
    case True
    then show ?thesis using "1.prems" digit_char [of n] by (simp add: decimal.simps [of n])
  next
    case False
    have "n mod 10 < 10" by simp
    then have "digitp (char_of (48 + n mod 10))" using digit_char by blast
    then show ?thesis using False "1.prems" "1.IH"
      by (auto simp add: decimal.simps [of n])
  qed
qed

lemma decimal_nonempty: "decimal n \<noteq> []"
  by (simp add: decimal.simps [of n])

lemma scan_digits_append:
  "(\<And>c. c \<in> set ds \<Longrightarrow> digitp c) \<Longrightarrow>
   scan_digits acc (ds @ r) = scan_digits (foldl (\<lambda>a c. a * 10 + digit_val c) acc ds) r"
  by (induction ds arbitrary: acc) auto

lemma foldl_decimal: "foldl (\<lambda>a c. a * 10 + digit_val c) 0 (decimal n) = n"
proof (induction n rule: decimal.induct)
  case (1 n)
  show ?case
  proof (cases "n < 10")
    case True
    then show ?thesis using digit_char [of n] by (simp add: decimal.simps [of n])
  next
    case False
    have "n mod 10 < 10" by simp
    then have "digit_val (char_of (48 + n mod 10)) = n mod 10" using digit_char by blast
    then show ?thesis using False "1.IH" by (simp add: decimal.simps [of n])
  qed
qed

lemma scan_digits_stop: "\<not> digitp (peek r) \<Longrightarrow> scan_digits acc r = (acc, r)"
  by (cases r) (auto simp: peek_def)

lemma scan_decimal: "\<not> digitp (peek r) \<Longrightarrow> scan_digits 0 (decimal n @ r) = (n, r)"
  by (simp add: scan_digits_append decimal_digits foldl_decimal scan_digits_stop)

lemma peek_decimal: "digitp (peek (decimal n @ r))"
  using decimal_nonempty [of n] decimal_digits [of _ n]
  by (cases "decimal n") (auto simp: peek_def)

lemma colon_not_digit: "\<not> digitp (CHR '':'')"
  by (simp add: digitp_def)

lemma peek_Cons: "peek (c # s) = c"
  by (simp add: peek_def)

lemma data_token_canon: "data_token (decimal (length d) @ CHR '':'' # d @ r) = Some (d, r)"
proof -
  have "scan_digits 0 (decimal (length d) @ CHR '':'' # d @ r) = (length d, CHR '':'' # d @ r)"
    by (rule scan_decimal) (simp add: peek_Cons colon_not_digit)
  then show ?thesis
    by (simp add: data_token_def peek_decimal peek_Cons)
qed

lemma paren_not_digit: "\<not> digitp (CHR ''('')" "\<not> digitp (CHR '')'')"
  by (simp_all add: digitp_def)

lemma parse_sexp_open:
  "parse_sexp \<lparr> buf = CHR ''('' # r, depth = k \<rparr> = Inr (\<lparr> buf = r, depth = k + 1 \<rparr>, None)"
  by (simp add: parse_sexp_def peek_def)

lemma parse_sexp_close:
  "k \<noteq> 0 \<Longrightarrow>
   parse_sexp \<lparr> buf = CHR '')'' # r, depth = k \<rparr> = Inr (\<lparr> buf = r, depth = k - 1 \<rparr>, None)"
  by (simp add: parse_sexp_def peek_def)

lemma parse_sexp_atom:
  "parse_sexp \<lparr> buf = decimal (length d) @ CHR '':'' # d @ r, depth = k \<rparr>
     = Inr (\<lparr> buf = r, depth = k \<rparr>, Some d)"
proof -
  have "digitp (peek (decimal (length d) @ CHR '':'' # d @ r))" by (rule peek_decimal)
  then have "peek (decimal (length d) @ CHR '':'' # d @ r) \<noteq> CHR ''(''"
    "peek (decimal (length d) @ CHR '':'' # d @ r) \<noteq> CHR '')''"
    using paren_not_digit by auto
  then show ?thesis
    by (simp add: parse_sexp_def data_token_canon decimal_nonempty)
qed

lemma skip_to_end_atom:
  assumes "k \<noteq> 0" "ld \<le> k"
  shows "skip_to_end ld \<lparr> buf = decimal (length d) @ CHR '':'' # d @ r, depth = k \<rparr>
     = skip_to_end ld \<lparr> buf = r, depth = k \<rparr>"
  using assms by (subst skip_to_end.simps) (simp add: parse_sexp_atom)

lemma skip_to_end_open:
  assumes "k + 1 \<noteq> 0" "ld \<le> k + 1"
  shows "skip_to_end ld \<lparr> buf = CHR ''('' # r, depth = k \<rparr>
     = skip_to_end ld \<lparr> buf = r, depth = k + 1 \<rparr>"
  using assms by (subst skip_to_end.simps) (simp add: parse_sexp_open)

lemma skip_to_end_close_go:
  assumes "k \<noteq> 0" "k - 1 \<noteq> 0" "ld \<le> k - 1"
  shows "skip_to_end ld \<lparr> buf = CHR '')'' # r, depth = k \<rparr>
     = skip_to_end ld \<lparr> buf = r, depth = k - 1 \<rparr>"
  using assms by (subst skip_to_end.simps) (simp add: parse_sexp_close)

lemma skip_to_end_close_stop:
  assumes "k \<noteq> 0" "k - 1 = 0 \<or> k - 1 < ld"
  shows "skip_to_end ld \<lparr> buf = CHR '')'' # r, depth = k \<rparr> = Inr \<lparr> buf = r, depth = k - 1 \<rparr>"
  using assms by (subst skip_to_end.simps) (auto simp add: parse_sexp_close)

lemma skip_to_end_canon:
  "1 \<le> ld \<Longrightarrow> ld \<le> k \<Longrightarrow>
   skip_to_end ld \<lparr> buf = canon x @ r, depth = k \<rparr> = skip_to_end ld \<lparr> buf = r, depth = k \<rparr>"
proof (induction x arbitrary: r k)
  case (Atom d)
  then show ?case using skip_to_end_atom [of k ld d r] by simp
next
  case (SList xs)
  have seq: "skip_to_end ld \<lparr> buf = concat (map canon ys) @ r', depth = k + 1 \<rparr>
      = skip_to_end ld \<lparr> buf = r', depth = k + 1 \<rparr>" if "set ys \<subseteq> set xs" for ys r'
    using that
  proof (induction ys)
    case Nil
    show ?case by simp
  next
    case (Cons y ys)
    have "skip_to_end ld \<lparr> buf = canon y @ concat (map canon ys) @ r', depth = k + 1 \<rparr>
      = skip_to_end ld \<lparr> buf = concat (map canon ys) @ r', depth = k + 1 \<rparr>"
      using SList.IH [of y "k + 1" "concat (map canon ys) @ r'"] SList.prems Cons.prems by simp
    then show ?case using Cons by simp
  qed
  have "skip_to_end ld \<lparr> buf = canon (SList xs) @ r, depth = k \<rparr>
      = skip_to_end ld \<lparr> buf = concat (map canon xs) @ CHR '')'' # r, depth = k + 1 \<rparr>"
    using SList.prems skip_to_end_open [of k ld "concat (map canon xs) @ CHR '')'' # r"] by simp
  also have "\<dots> = skip_to_end ld \<lparr> buf = CHR '')'' # r, depth = k + 1 \<rparr>"
    using seq [of xs "CHR '')'' # r"] by simp
  also have "\<dots> = skip_to_end ld \<lparr> buf = r, depth = k \<rparr>"
    using SList.prems skip_to_end_close_go [of "k + 1" ld r] by simp
  finally show ?case .
qed

lemma skip_to_end_canon_list:
  "1 \<le> ld \<Longrightarrow> ld \<le> k \<Longrightarrow>
   skip_to_end ld \<lparr> buf = concat (map canon xs) @ r, depth = k \<rparr>
     = skip_to_end ld \<lparr> buf = r, depth = k \<rparr>"
  by (induction xs) (simp_all add: skip_to_end_canon)

lemma skip_to_end_rest_of_list:
  "0 \<le> k \<Longrightarrow>
   skip_to_end (k + 1) \<lparr> buf = concat (map canon xs) @ CHR '')'' # r, depth = k + 1 \<rparr>
     = Inr \<lparr> buf = r, depth = k \<rparr>"
  using skip_to_end_canon_list [of "k + 1" "k + 1" xs "CHR '')'' # r"]
    skip_to_end_close_stop [of "k + 1" "k + 1" r]
  by simp

lemma parse_sexp_error: "parse_sexp c = Inl e \<Longrightarrow> e = GPG_ERR_INV_SEXP"
  by (auto simp: parse_sexp_def split: if_splits option.splits)

lemma parse_sexp_depth:
  "parse_sexp c = Inr (c', tok) \<Longrightarrow> depth c - 1 \<le> depth c' \<and> depth c' \<le> depth c + 1"
  by (auto simp: parse_sexp_def split: if_splits option.splits)

lemma skip_to_end_error: "skip_to_end ld c = Inl e \<Longrightarrow> e = GPG_ERR_INV_SEXP"
proof (induction ld c rule: skip_to_end.induct)
  case (1 ld c)
  show ?case
  proof (cases "parse_sexp c")
    case (Inl e')
    then show ?thesis using "1.prems" parse_sexp_error [of c e']
      by (subst (asm) skip_to_end.simps) simp
  next
    case (Inr p)
    obtain c1 tok where p: "p = (c1, tok)" by (cases p)
    show ?thesis
    proof (cases "depth c1 \<noteq> 0 \<and> ld \<le> depth c1")
      case True
      then have "skip_to_end ld c1 = Inl e"
        using "1.prems" Inr p by (subst (asm) skip_to_end.simps) simp
      then show ?thesis using "1.IH" [OF Inr [unfolded p] refl True] by simp
    next
      case False
      then show ?thesis using "1.prems" Inr p by (subst (asm) skip_to_end.simps) auto
    qed
  qed
qed

lemma skip_to_end_depth:
  "skip_to_end ld c = Inr c' \<Longrightarrow> 1 \<le> ld \<Longrightarrow> ld \<le> depth c \<Longrightarrow> depth c' = ld - 1"
proof (induction ld c rule: skip_to_end.induct)
  case (1 ld c)
  from "1.prems" obtain c1 tok where p: "parse_sexp c = Inr (c1, tok)"
    by (subst (asm) skip_to_end.simps) (auto split: sum.splits)
  have d: "depth c - 1 \<le> depth c1" using parse_sexp_depth [OF p] by simp
  show ?case
  proof (cases "depth c1 \<noteq> 0 \<and> ld \<le> depth c1")
    case True
    then have "skip_to_end ld c1 = Inr c'"
      using "1.prems" p by (subst (asm) skip_to_end.simps) simp
    then show ?thesis using "1.IH" [OF p refl True] "1.prems" True by simp
  next
    case False
    then have "c' = c1"
      using "1.prems" p by (subst (asm) skip_to_end.simps) auto
    then show ?thesis using False d "1.prems" by auto
  qed
qed

lemma scan_digits_extend:
  "scan_digits acc s = (n, s') \<Longrightarrow> s' \<noteq> [] \<Longrightarrow> scan_digits acc (s @ q) = (n, s' @ q)"
  by (induction s arbitrary: acc) (auto split: if_splits)

lemma data_token_extend:
  assumes "data_token s = Some (tok, s')"
  shows "data_token (s @ q) = Some (tok, s' @ q)"
proof -
  obtain vlen s1 where sc: "scan_digits 0 s = (vlen, s1)" by (cases "scan_digits 0 s")
  from assms sc have dg: "digitp (peek s)" and col: "peek s1 = CHR '':''"
    and len: "vlen \<le> length (tl s1)" and tok: "tok = take vlen (tl s1)"
    and s': "s' = drop vlen (tl s1)"
    by (auto simp: data_token_def split: if_splits)
  from col have ne: "s1 \<noteq> []" by (auto simp: peek_def)
  from dg have sne: "s \<noteq> []" by (auto simp: peek_def digitp_def)
  have sc': "scan_digits 0 (s @ q) = (vlen, s1 @ q)" using sc ne by (rule scan_digits_extend)
  have p1: "peek (s @ q) = peek s" using sne by (cases s) (auto simp: peek_def)
  have p2: "peek (s1 @ q) = peek s1" using ne by (cases s1) (auto simp: peek_def)
  have t: "tl (s1 @ q) = tl s1 @ q" using ne by simp
  show ?thesis using dg col len tok s'
    by (simp add: data_token_def sc' p1 p2 t)
qed

lemma parse_sexp_extend:
  assumes "parse_sexp c = Inr (c', tok)" "buf c \<noteq> []"
  shows "parse_sexp (c\<lparr> buf := buf c @ q \<rparr>) = Inr (c'\<lparr> buf := buf c' @ q \<rparr>, tok)"
proof -
  have p1: "peek (buf c @ q) = peek (buf c)" using assms(2) by (cases "buf c") (auto simp: peek_def)
  have t: "tl (buf c @ q) = tl (buf c) @ q" using assms(2) by simp
  show ?thesis
    using assms
    by (auto simp: parse_sexp_def p1 t split: if_splits option.splits
        dest: data_token_extend [where q = q])
qed

lemma skip_to_end_extend:
  "skip_to_end ld c = Inr c' \<Longrightarrow> 1 \<le> depth c \<Longrightarrow>
   skip_to_end ld (c\<lparr> buf := buf c @ q \<rparr>) = Inr (c'\<lparr> buf := buf c' @ q \<rparr>)"
proof (induction ld c rule: skip_to_end.induct)
  case (1 ld c)
  from "1.prems" obtain c1 tok where p: "parse_sexp c = Inr (c1, tok)"
    by (subst (asm) skip_to_end.simps) (auto split: sum.splits)
  have ne: "buf c \<noteq> []" using p "1.prems"(2) by (auto simp: parse_sexp_def split: if_splits)
  have pe: "parse_sexp (c\<lparr> buf := buf c @ q \<rparr>) = Inr (c1\<lparr> buf := buf c1 @ q \<rparr>, tok)"
    using p ne by (rule parse_sexp_extend)
  have d: "depth c - 1 \<le> depth c1" using parse_sexp_depth [OF p] by simp
  show ?case
  proof (cases "depth c1 \<noteq> 0 \<and> ld \<le> depth c1")
    case True
    then have sk: "skip_to_end ld c1 = Inr c'"
      using "1.prems" p by (subst (asm) skip_to_end.simps) simp
    have "1 \<le> depth c1" using True d "1.prems"(2) by simp
    then have "skip_to_end ld (c1\<lparr> buf := buf c1 @ q \<rparr>) = Inr (c'\<lparr> buf := buf c' @ q \<rparr>)"
      using "1.IH" [OF p refl True sk] by simp
    then show ?thesis using True pe by (subst skip_to_end.simps) simp
  next
    case False
    then have "c' = c1"
      using "1.prems" p by (subst (asm) skip_to_end.simps) auto
    then show ?thesis using False pe by (subst skip_to_end.simps) auto
  qed
qed

lemma skip_to_end_truncated:
  assumes k: "0 \<le> k" and pq: "p @ q = concat (map canon xs) @ '')''" and q: "q \<noteq> []"
  shows "skip_to_end (k + 1) \<lparr> buf = p, depth = k + 1 \<rparr> = Inl GPG_ERR_INV_SEXP"
proof (cases "skip_to_end (k + 1) \<lparr> buf = p, depth = k + 1 \<rparr>")
  case (Inl e)
  then show ?thesis using skip_to_end_error by simp
next
  case (Inr c')
  have "skip_to_end (k + 1) (\<lparr> buf = p, depth = k + 1 \<rparr>\<lparr> buf := buf \<lparr> buf = p, depth = k + 1 \<rparr> @ q \<rparr>)
      = Inr (c'\<lparr> buf := buf c' @ q \<rparr>)"
    using k by (intro skip_to_end_extend [OF Inr]) simp
  then have "skip_to_end (k + 1) \<lparr> buf = concat (map canon xs) @ '')'', depth = k + 1 \<rparr>
      = Inr (c'\<lparr> buf := buf c' @ q \<rparr>)"
    using pq by simp
  moreover have "skip_to_end (k + 1) \<lparr> buf = concat (map canon xs) @ '')'', depth = k + 1 \<rparr>
      = Inr \<lparr> buf = [], depth = k \<rparr>"
    using skip_to_end_rest_of_list [OF k, of xs "[]"] by simp
  ultimately have "buf (c'\<lparr> buf := buf c' @ q \<rparr>) = buf \<lparr> buf = [], depth = k \<rparr>" by simp
  then show ?thesis using q by simp
qed

lemma peek_append: "s \<noteq> [] \<Longrightarrow> peek (s @ q) = peek s"
  by (cases s) (auto simp: peek_def)

lemma peek_paren_nonempty: "peek s = CHR ''('' \<or> peek s = CHR '')'' \<Longrightarrow> s \<noteq> []"
  by (auto simp: peek_def)

lemma sskip_from_atom:
  assumes "d0 \<le> d"
  shows "sskip_from d0 (decimal (length a) @ CHR '':'' # a @ r) d = sskip_from d0 r d"
proof -
  have "digitp (peek (decimal (length a) @ CHR '':'' # a @ r))" by (rule peek_decimal)
  then have "peek (decimal (length a) @ CHR '':'' # a @ r) \<noteq> CHR ''(''"
    "peek (decimal (length a) @ CHR '':'' # a @ r) \<noteq> CHR '')''"
    using paren_not_digit by auto
  then show ?thesis using assms
    by (subst sskip_from.simps) (simp add: data_token_canon)
qed

lemma sskip_from_open:
  "d0 \<le> d \<Longrightarrow> sskip_from d0 (CHR ''('' # r) d = sskip_from d0 r (d + 1)"
  by (subst sskip_from.simps) (simp add: peek_Cons)

lemma sskip_from_close:
  "d0 \<le> d \<Longrightarrow> sskip_from d0 (CHR '')'' # r) d = sskip_from d0 r (d - 1)"
  by (subst sskip_from.simps) (simp add: peek_Cons)

lemma sskip_from_done: "d < d0 \<Longrightarrow> sskip_from d0 s d = Inr (s, d)"
  by (subst sskip_from.simps) simp

lemma sskip_from_canon:
  "d0 \<le> d \<Longrightarrow> sskip_from d0 (canon x @ r) d = sskip_from d0 r d"
proof (induction x arbitrary: r d)
  case (Atom a)
  then show ?case using sskip_from_atom [of d0 d a r] by simp
next
  case (SList xs)
  have seq: "sskip_from d0 (concat (map canon ys) @ r') (d + 1) = sskip_from d0 r' (d + 1)"
    if "set ys \<subseteq> set xs" for ys r'
    using that
  proof (induction ys)
    case Nil
    show ?case by simp
  next
    case (Cons y ys)
    have "sskip_from d0 (canon y @ concat (map canon ys) @ r') (d + 1)
        = sskip_from d0 (concat (map canon ys) @ r') (d + 1)"
      using SList.IH [of y "d + 1" "concat (map canon ys) @ r'"] SList.prems Cons.prems by simp
    then show ?case using Cons by simp
  qed
  have "sskip_from d0 (canon (SList xs) @ r) d
      = sskip_from d0 (concat (map canon xs) @ CHR '')'' # r) (d + 1)"
    using SList.prems sskip_from_open [of d0 d "concat (map canon xs) @ CHR '')'' # r"] by simp
  also have "\<dots> = sskip_from d0 (CHR '')'' # r) (d + 1)"
    using seq [of xs "CHR '')'' # r"] by simp
  also have "\<dots> = sskip_from d0 r d"
    using SList.prems sskip_from_close [of d0 "d + 1" r] by simp
  finally show ?case .
qed

lemma sskip_from_canon_list:
  "d0 \<le> d \<Longrightarrow> sskip_from d0 (concat (map canon xs) @ r) d = sskip_from d0 r d"
  by (induction xs) (simp_all add: sskip_from_canon)

lemma sskip_rest_of_list:
  "sskip (concat (map canon xs) @ CHR '')'' # r) d = Inr (r, d - 1)"
  by (simp add: sskip_def sskip_from_canon_list sskip_from_close sskip_from_done)

lemma sskip_from_error: "sskip_from d0 s d = Inl e \<Longrightarrow> e = GPG_ERR_INV_SEXP"
proof (induction d0 s d rule: sskip_from.induct)
  case (1 d0 s d)
  from "1.prems" show ?case
    by (subst (asm) sskip_from.simps) (auto split: if_splits option.splits intro: "1.IH")
qed

lemma sskip_from_Inr_cases:
  assumes "sskip_from d0 s d = Inr res"
  shows "(d < d0 \<and> res = (s, d))
    \<or> (\<not> d < d0 \<and> peek s = CHR ''('' \<and> sskip_from d0 (tl s) (d + 1) = Inr res)
    \<or> (\<not> d < d0 \<and> peek s \<noteq> CHR ''('' \<and> peek s = CHR '')''
        \<and> sskip_from d0 (tl s) (d - 1) = Inr res)
    \<or> (\<exists>tok s1. \<not> d < d0 \<and> peek s \<noteq> CHR ''('' \<and> peek s \<noteq> CHR '')''
        \<and> data_token s = Some (tok, s1) \<and> sskip_from d0 s1 d = Inr res)"
  using assms by (subst (asm) sskip_from.simps) (auto split: if_splits option.splits)

lemma sskip_from_depth:
  "sskip_from d0 s d = Inr (s', d') \<Longrightarrow> d0 - 1 \<le> d \<Longrightarrow> d' = d0 - 1"
proof (induction d0 s d rule: sskip_from.induct)
  case (1 d0 s d)
  from sskip_from_Inr_cases [OF "1.prems"(1)] consider
      (fin) "d < d0" "(s', d') = (s, d)"
    | (opn) "\<not> d < d0" "peek s = CHR ''(''" "sskip_from d0 (tl s) (d + 1) = Inr (s', d')"
    | (cls) "\<not> d < d0" "peek s \<noteq> CHR ''(''" "peek s = CHR '')''"
        "sskip_from d0 (tl s) (d - 1) = Inr (s', d')"
    | (tok) tok s1 where "\<not> d < d0" "peek s \<noteq> CHR ''(''" "peek s \<noteq> CHR '')''"
        "data_token s = Some (tok, s1)" "sskip_from d0 s1 d = Inr (s', d')"
    by blast
  then show ?case
  proof cases
    case fin
    then show ?thesis using "1.prems"(2) by simp
  next
    case opn
    then show ?thesis using "1.IH"(1) [OF opn(1) opn(2) opn(3)] by simp
  next
    case cls
    then show ?thesis using "1.IH"(2) [OF cls(1) cls(2) cls(3) cls(4)] by simp
  next
    case tok
    then show ?thesis using "1.IH"(3) [OF tok(1) tok(2) tok(3) tok(4) refl tok(5)] by simp
  qed
qed

lemma sskip_from_extend:
  "sskip_from d0 s d = Inr (s', d') \<Longrightarrow> sskip_from d0 (s @ q) d = Inr (s' @ q, d')"
proof (induction d0 s d rule: sskip_from.induct)
  case (1 d0 s d)
  show ?case
  proof (cases "d < d0")
    case True
    then show ?thesis using "1.prems" by (simp add: sskip_from_done)
  next
    case nd: False
    show ?thesis
    proof (cases "peek s = CHR ''(''")
      case True
      then have ne: "s \<noteq> []" using peek_paren_nonempty by blast
      have "sskip_from d0 (tl s) (d + 1) = Inr (s', d')"
        using "1.prems" nd True by (subst (asm) sskip_from.simps) simp
      then have "sskip_from d0 (tl s @ q) (d + 1) = Inr (s' @ q, d')"
        using "1.IH"(1) [OF nd True] by simp
      then show ?thesis using nd True ne
        by (subst sskip_from.simps) (simp add: peek_append)
    next
      case no: False
      show ?thesis
      proof (cases "peek s = CHR '')''")
        case True
        then have ne: "s \<noteq> []" using peek_paren_nonempty by blast
        have "sskip_from d0 (tl s) (d - 1) = Inr (s', d')"
          using "1.prems" nd no True by (subst (asm) sskip_from.simps) simp
        then have "sskip_from d0 (tl s @ q) (d - 1) = Inr (s' @ q, d')"
          using "1.IH"(2) [OF nd no True] by simp
        then show ?thesis using nd no True ne
          by (subst sskip_from.simps) (simp add: peek_append)
      next
        case nc: False
        from "1.prems" nd no nc obtain tok s1 where
          dt: "data_token s = Some (tok, s1)" and r: "sskip_from d0 s1 d = Inr (s', d')"
          by (subst (asm) sskip_from.simps) (auto split: option.splits)
        have ne: "s \<noteq> []" using dt by (auto simp: data_token_def peek_def digitp_def)
        have "sskip_from d0 (s1 @ q) d = Inr (s' @ q, d')"
          using "1.IH"(3) [OF nd no nc dt refl r] .
        then show ?thesis using nd no nc ne data_token_extend [OF dt, of q]
          by (subst sskip_from.simps) (simp add: peek_append)
      qed
    qed
  qed
qed

lemma sskip_truncated:
  assumes pq: "p @ q = concat (map canon xs) @ '')''" and q: "q \<noteq> []"
  shows "sskip p d = Inl GPG_ERR_INV_SEXP"
proof (cases "sskip p d")
  case (Inl e)
  then show ?thesis using sskip_from_error by (simp add: sskip_def)
next
  case (Inr res)
  obtain s' d' where res: "res = (s', d')" by (cases res)
  have "sskip (p @ q) d = Inr (s' @ q, d')"
    using Inr res sskip_from_extend [of d p d s' d' q] by (simp add: sskip_def)
  moreover have "sskip (p @ q) d = Inr ([], d - 1)"
    using sskip_rest_of_list [of xs "[]" d] pq by simp
  ultimately show ?thesis using q by simp
qed

lemma snext_decimal:
  assumes "n \<noteq> 0"
  shows "snext (decimal n @ CHR '':'' # r) = (n, r)"
proof -
  have "scan_digits 0 (decimal n @ CHR '':'' # r) = (n, CHR '':'' # r)"
    by (rule scan_decimal) (simp add: peek_Cons colon_not_digit)
  then show ?thesis using assms by (simp add: snext_def peek_Cons)
qed

lemma snext_sig_val: "snext (''7:sig-val'' @ r) = (7, ''sig-val'' @ r)"
  by (simp add: snext_def digitp_def digit_val_def peek_Cons)

lemma snext_hash: "snext (''4:hash'' @ r) = (4, ''hash'' @ r)"
  by (simp add: snext_def digitp_def digit_val_def peek_Cons)

lemma sigval_prefix:
  "hash_algo_from_sigval g (Some (''(7:sig-val('' @ concat (map canon xs) @ '')'' @ rest))
     = (if peek rest \<noteq> CHR ''('' then 0
        else (case snext (tl rest) of (n2, s4) \<Rightarrow>
          if n2 = 0 then 0
          else (case smatch s4 n2 ''hash'' of (ok2, s5) \<Rightarrow>
            if \<not> ok2 then 0
            else (case snext s5 of (n, s6) \<Rightarrow>
              if n = 0 \<or> 50 \<le> n + 1 then 0 else g (c_string (take n s6))))))"
proof -
  have sk: "sskip (concat (map canon xs) @ CHR '')'' # rest) 1 = Inr (rest, 0)"
    using sskip_rest_of_list [of xs rest 1] by simp
  have sn: "snext (''7:sig-val('' @ concat (map canon xs) @ '')'' @ rest)
      = (7, ''sig-val('' @ concat (map canon xs) @ '')'' @ rest)"
    using snext_sig_val [of "''('' @ concat (map canon xs) @ '')'' @ rest"] by simp
  show ?thesis
    unfolding hash_algo_from_sigval_def
    using sk sn by (simp add: peek_Cons smatch_def)
qed

lemma sigval_hash_name:
  assumes "name \<noteq> []"
  shows "hash_algo_from_sigval g
       (Some (''(7:sig-val('' @ concat (map canon xs) @ '')'' @ ''(4:hash'' @ canon (Atom name) @ t))
     = (if 49 \<le> length name then 0 else g (c_string name))"
proof -
  have sn: "snext (decimal (length name) @ CHR '':'' # name @ t) = (length name, name @ t)"
    using assms by (intro snext_decimal) simp
  have sh: "snext (''4:hash'' @ decimal (length name) @ CHR '':'' # name @ t)
      = (4, ''hash'' @ decimal (length name) @ CHR '':'' # name @ t)"
    by (rule snext_hash)
  show ?thesis
    unfolding sigval_prefix using sn sh assms
    by (simp add: peek_Cons smatch_def)
qed

lemma sigval_no_hash:
  "hash_algo_from_sigval g (Some (''(7:sig-val('' @ concat (map canon xs) @ '')'' @ '')'')) = 0"
  unfolding sigval_prefix by (simp add: peek_Cons)

lemma decimal_small: "decimal 10 = ''10''" "decimal 3 = ''3''" "decimal 1 = ''1''"
  by code_simp+

lemma length1_hd: "length name = Suc 0 \<Longrightarrow> name = [hd name]"
  by (cases name) auto

lemma walk_name_component:
  "walk_name w \<lparr> buf = canon (Atom v) @ r, depth = k \<rparr> (Some name) =
     (if length name = 1
      then (if name = ''n'' \<and> rsa_n w \<noteq> None \<or> name = ''e'' \<and> rsa_e w \<noteq> None
            then Inl GPG_ERR_DUP_VALUE
            else Inr (if name = ''n'' then w\<lparr> rsa_n := Some (strip_zeros v) \<rparr>
                      else if name = ''e'' then w\<lparr> rsa_e := Some (strip_zeros v) \<rparr>
                      else w, \<lparr> buf = r, depth = k \<rparr>))
      else Inr (w, \<lparr> buf = canon (Atom v) @ r, depth = k \<rparr>))"
proof (cases "length name = 1")
  case False
  then show ?thesis by (simp add: walk_name_def)
next
  case True
  then obtain c where name: "name = [c]" using length1_hd [of name] by auto
  have p: "parse_sexp \<lparr> buf = decimal (length v) @ CHR '':'' # v @ r, depth = k \<rparr>
     = Inr (\<lparr> buf = r, depth = k \<rparr>, Some v)" by (rule parse_sexp_atom)
  show ?thesis
    using p by (auto simp add: walk_name_def name mpi_known_def mpi_get_def bind_mpi_def)
qed

lemma parse_sexp_canon_atom:
  "parse_sexp \<lparr> buf = canon (Atom d) @ r, depth = k \<rparr> = Inr (\<lparr> buf = r, depth = k \<rparr>, Some d)"
  using parse_sexp_atom [of d r k] by simp

lemma walk_body_component:
  "walk_body w \<lparr> buf = canon (Atom name) @ canon (Atom v) @ concat (map canon ex) @ CHR '')'' # r,
                 depth = 3 \<rparr> None =
     (if name = ''n'' \<and> rsa_n w \<noteq> None \<or> name = ''e'' \<and> rsa_e w \<noteq> None
      then Inl GPG_ERR_DUP_VALUE
      else Inr ((if name = ''n'' then w\<lparr> rsa_n := Some (strip_zeros v) \<rparr>
                 else if name = ''e'' then w\<lparr> rsa_e := Some (strip_zeros v) \<rparr>
                 else w)\<lparr> cur := \<lparr> buf = r, depth = 2 \<rparr> \<rparr>))"
proof -
  let ?rest = "concat (map canon ex) @ CHR '')'' # r"
  have s1: "skip_to_end 3 \<lparr> buf = ?rest, depth = 3 \<rparr> = Inr \<lparr> buf = r, depth = 2 \<rparr>"
    using skip_to_end_rest_of_list [of 2 ex r] by simp
  have s2: "skip_to_end 3 \<lparr> buf = canon (Atom v) @ ?rest, depth = 3 \<rparr> = Inr \<lparr> buf = r, depth = 2 \<rparr>"
    using skip_to_end_rest_of_list [of 2 "Atom v # ex" r] by simp
  have l1: "name \<noteq> ''n'' \<and> name \<noteq> ''e''" if "length name \<noteq> 1" using that by auto
  show ?thesis
  proof (cases "length name = 1")
    case True
    then show ?thesis
      unfolding walk_body_def
      by (simp add: parse_sexp_canon_atom walk_name_component s1 del: canon.simps)
  next
    case False
    then show ?thesis
      unfolding walk_body_def using l1 [OF False]
      by (simp add: parse_sexp_canon_atom walk_name_component s2 del: canon.simps)
  qed
qed

lemma rsa_walk_step:
  assumes "parse_sexp (cur w) = Inr (c1, tok)" "depth c1 \<noteq> 0" "ld \<le> depth c1"
  shows "rsa_walk ld w =
    (case walk_body w c1 tok of Inl err \<Rightarrow> Inl err | Inr w' \<Rightarrow> rsa_walk ld w')"
  by (subst rsa_walk.simps) (simp add: assms)

lemma rsa_walk_stop:
  assumes "parse_sexp (cur w) = Inr (c1, tok)" "depth c1 = 0 \<or> depth c1 < ld"
  shows "rsa_walk ld w = Inr (w\<lparr> cur := c1 \<rparr>)"
  using assms(2) by (subst rsa_walk.simps) (auto simp add: assms(1))

lemma rsa_walk_components:
  "rsa_walk 2 \<lparr> cur = \<lparr> buf = concat (map component_bytes sibs) @ CHR '')'' # t, depth = 2 \<rparr>,
               rsa_n = n, rsa_e = e \<rparr> =
     (case bind_all (n, e) sibs of
        Inl err \<Rightarrow> Inl err
      | Inr (n', e') \<Rightarrow> Inr \<lparr> cur = \<lparr> buf = t, depth = 1 \<rparr>, rsa_n = n', rsa_e = e' \<rparr>)"
proof (induction sibs arbitrary: n e)
  case Nil
  have "parse_sexp (cur \<lparr> cur = \<lparr> buf = CHR '')'' # t, depth = 2 \<rparr>, rsa_n = n, rsa_e = e \<rparr>)
      = Inr (\<lparr> buf = t, depth = 1 \<rparr>, None)"
    using parse_sexp_close [of 2 t] by simp
  from rsa_walk_stop [OF this, of 2] show ?case by simp
next
  case (Cons s sibs)
  obtain name v ex where s: "s = (name, v, ex)" by (cases s)
  define r where "r = concat (map component_bytes sibs) @ CHR '')'' # t"
  define c1 where "c1 = \<lparr> buf = canon (Atom name) @ canon (Atom v) @ concat (map canon ex) @ CHR '')'' # r,
               depth = 3 \<rparr>"
  define w where "w = \<lparr> cur = \<lparr> buf = concat (map component_bytes (s # sibs)) @ CHR '')'' # t, depth = 2 \<rparr>,
               rsa_n = n, rsa_e = e \<rparr>"
  have cw: "cur w = \<lparr> buf = CHR ''('' # buf c1, depth = 2 \<rparr>"
    by (simp add: w_def s component_bytes_def c1_def r_def)
  have c1': "\<lparr> buf = buf c1, depth = 2 + 1 \<rparr> = c1" by (simp add: c1_def)
  have p: "parse_sexp (cur w) = Inr (c1, None)"
    unfolding cw parse_sexp_open c1' ..
  have d: "depth c1 \<noteq> 0" "2 \<le> depth c1" by (simp_all add: c1_def)
  have body: "walk_body w c1 None
      = (if name = ''n'' \<and> n \<noteq> None \<or> name = ''e'' \<and> e \<noteq> None
         then Inl GPG_ERR_DUP_VALUE
         else Inr \<lparr> cur = \<lparr> buf = r, depth = 2 \<rparr>,
                  rsa_n = (if name = ''n'' then Some (strip_zeros v) else n),
                  rsa_e = (if name = ''n'' then e
                           else if name = ''e'' then Some (strip_zeros v) else e) \<rparr>)"
    unfolding c1_def walk_body_component by (auto simp: w_def)
  have "rsa_walk 2 w =
      (case bind_all (n, e) (s # sibs) of
        Inl err \<Rightarrow> Inl err
      | Inr (n', e') \<Rightarrow> Inr \<lparr> cur = \<lparr> buf = t, depth = 1 \<rparr>, rsa_n = n', rsa_e = e' \<rparr>)"
    unfolding rsa_walk_step [OF p d] body
    by (simp add: s Cons.IH r_def)
  then show ?case by (simp only: w_def)
qed

lemma map_of_absent: "\<forall>x\<in>set sibs. k \<noteq> fst x \<Longrightarrow> map_of sibs k = None"
  by (induction sibs) auto

lemma bind_all_char:
  "bind_all (n, e) sibs =
     (if \<not> distinct (filter wanted (map fst sibs))
          \<or> (n \<noteq> None \<and> ''n'' \<in> fst ` set sibs) \<or> (e \<noteq> None \<and> ''e'' \<in> fst ` set sibs)
      then Inl GPG_ERR_DUP_VALUE
      else Inr (case map_of sibs ''n'' of None \<Rightarrow> n | Some (v, ex) \<Rightarrow> Some (strip_zeros v),
                case map_of sibs ''e'' of None \<Rightarrow> e | Some (v, ex) \<Rightarrow> Some (strip_zeros v)))"
proof (induction sibs arbitrary: n e)
  case Nil
  show ?case by simp
next
  case (Cons s sibs)
  obtain name v ex where s: "s = (name, v, ex)" by (cases s)
  have ne: "''n'' \<noteq> ''e''" by simp
  show ?case
  proof (cases "name = ''n''")
    case True
    then show ?thesis
      by (cases n) (auto simp add: s Cons.IH wanted_def image_iff map_of_absent)
  next
    case nn: False
    show ?thesis
    proof (cases "name = ''e''")
      case True
      then show ?thesis
        by (cases e) (auto simp add: s Cons.IH wanted_def image_iff map_of_absent)
    next
      case False
      then show ?thesis using nn
        by (auto simp add: s Cons.IH wanted_def image_iff map_of_absent)
    qed
  qed
qed

lemma get_rsa_pk_header:
  "get_rsa_pk_from_canon_sexp (''(10:public-key(3:rsa'' @ x) =
     (case rsa_walk 2 \<lparr> cur = \<lparr> buf = x, depth = 2 \<rparr>, rsa_n = None, rsa_e = None \<rparr> of
        Inl err \<Rightarrow> Inl err
      | Inr w \<Rightarrow> rsa_result w)"
proof -
  have l10: "length ''public-key'' = 10" and l3: "length ''rsa'' = 3" by simp_all
  have p1: "parse_sexp \<lparr> buf = ''(10:public-key(3:rsa'' @ x, depth = 0 \<rparr>
      = Inr (\<lparr> buf = ''10:public-key(3:rsa'' @ x, depth = 1 \<rparr>, None)"
    using parse_sexp_open [of "''10:public-key(3:rsa'' @ x" 0] by simp
  have p2: "parse_sexp \<lparr> buf = ''10:public-key(3:rsa'' @ x, depth = 1 \<rparr>
      = Inr (\<lparr> buf = ''(3:rsa'' @ x, depth = 1 \<rparr>, Some ''public-key'')"
    using parse_sexp_atom [of "''public-key''" "''(3:rsa'' @ x" 1, unfolded l10 decimal_small]
    by simp
  have p3: "parse_sexp \<lparr> buf = ''(3:rsa'' @ x, depth = 1 \<rparr>
      = Inr (\<lparr> buf = ''3:rsa'' @ x, depth = 2 \<rparr>, None)"
    using parse_sexp_open [of "''3:rsa'' @ x" 1] by simp
  have p4: "parse_sexp \<lparr> buf = ''3:rsa'' @ x, depth = 2 \<rparr>
      = Inr (\<lparr> buf = x, depth = 2 \<rparr>, Some ''rsa'')"
    using parse_sexp_atom [of "''rsa''" x 2, unfolded l3 decimal_small] by simp
  show ?thesis
    unfolding get_rsa_pk_from_canon_sexp_def p1 sum.case prod.case p2 p3 p4
    by simp
qed

lemma get_rsa_pk_rsa_key:
  "get_rsa_pk_from_canon_sexp (rsa_key sibs t) =
     (if \<not> distinct (filter wanted (map fst sibs)) then Inl GPG_ERR_DUP_VALUE
      else (case (map_of sibs ''n'', map_of sibs ''e'') of
              (Some (vn, xn), Some (ve, xe)) \<Rightarrow>
                (if strip_zeros vn = [] \<or> strip_zeros ve = [] then Inl GPG_ERR_BAD_PUBKEY
                 else Inr (strip_zeros vn, strip_zeros ve))
            | _ \<Rightarrow> Inl GPG_ERR_BAD_PUBKEY))"
proof -
  have k: "rsa_key sibs t = ''(10:public-key(3:rsa'' @ concat (map component_bytes sibs) @ CHR '')'' # CHR '')'' # t"
    by (simp add: rsa_key_def)
  show ?thesis
    unfolding k get_rsa_pk_header rsa_walk_components bind_all_char
    by (auto simp add: rsa_result_def split: option.splits)
qed

lemma strip_zeros_length: "length (strip_zeros m) \<le> length m"
  by (induction m) auto

lemma strip_zeros_idem: "strip_zeros (strip_zeros m) = strip_zeros m"
  by (induction m) auto

lemma strip_mpi_canon: "strip_zeros (mpi_canon m) = strip_zeros m"
  by (simp add: mpi_canon_def strip_zeros_idem)

lemma mpi_extra_le: "mpi_extra m \<le> 1"
  by (simp add: mpi_extra_def)

lemma length_mpi_canon: "length (mpi_canon m) = length (strip_zeros m) + mpi_extra (strip_zeros m)"
  using mpi_extra_le [of "strip_zeros m"] by (auto simp add: mpi_canon_def mpi_extra_def)

lemma uint_sum_exact: "l + x < 2 ^ 32 \<Longrightarrow> uint_sum l x = l + x"
  by (simp add: uint_sum_def)

lemma decimal_0: "decimal 0 = ''0''" "decimal (Suc 0) = ''1''"
  by code_simp+

lemma make_canon_sexp_exact:
  assumes "length m < 2 ^ 32 - 1" "length e < 2 ^ 32 - 1"
  shows "make_canon_sexp_from_rsa_pk True m e =
    Some (part1 @ canon (Atom (mpi_canon m)) @ part2 @ canon (Atom (mpi_canon e)) @ part3,
          length (part1 @ canon (Atom (mpi_canon m)) @ part2 @ canon (Atom (mpi_canon e)) @ part3))"
proof -
  have "length (strip_zeros m) + mpi_extra (strip_zeros m) < 2 ^ 32"
    using assms(1) strip_zeros_length [of m] mpi_extra_le [of "strip_zeros m"] by simp
  then have um: "uint_sum (length (strip_zeros m)) (mpi_extra (strip_zeros m)) = length (mpi_canon m)"
    by (simp add: uint_sum_exact length_mpi_canon)
  have "length (strip_zeros e) + mpi_extra (strip_zeros e) < 2 ^ 32"
    using assms(2) strip_zeros_length [of e] mpi_extra_le [of "strip_zeros e"] by simp
  then have ue: "uint_sum (length (strip_zeros e)) (mpi_extra (strip_zeros e)) = length (mpi_canon e)"
    by (simp add: uint_sum_exact length_mpi_canon)
  show ?thesis
    unfolding make_canon_sexp_from_rsa_pk_def Let_def um ue
    by (simp add: mpi_canon_def) (simp add: mpi_extra_def)
qed

lemma builder_is_rsa_key:
  "part1 @ canon (Atom vn) @ part2 @ canon (Atom ve) @ part3
     = rsa_key [(''n'', vn, []), (''e'', ve, [])] []"
  by (simp add: part1_def part2_def part3_def rsa_key_def component_bytes_def decimal_0)

lemma round_trip_aux:
  "get_rsa_pk_from_canon_sexp
     (part1 @ canon (Atom (mpi_canon m)) @ part2 @ canon (Atom (mpi_canon e)) @ part3)
   = (if strip_zeros m = [] \<or> strip_zeros e = [] then Inl GPG_ERR_BAD_PUBKEY
      else Inr (strip_zeros m, strip_zeros e))"
  unfolding builder_is_rsa_key get_rsa_pk_rsa_key
  by (simp add: wanted_def strip_mpi_canon)

lemma map_of_wanted:
  "distinct (filter P (map fst sibs)) \<Longrightarrow> (k, x) \<in> set sibs \<Longrightarrow> P k \<Longrightarrow> map_of sibs k = Some x"
proof (induction sibs)
  case Nil
  then show ?case by simp
next
  case (Cons s sibs)
  show ?case
  proof (cases "fst s = k")
    case True
    have "k \<notin> set (filter P (map fst sibs))" using Cons.prems(1,3) True by auto
    then have "k \<notin> fst ` set sibs" using Cons.prems(3) by auto
    then have "(k, x) \<notin> set sibs" by force
    then have "s = (k, x)" using Cons.prems(2) by simp
    then show ?thesis by simp
  next
    case False
    then have "(k, x) \<in> set sibs" using Cons.prems(2) by auto
    moreover have "distinct (filter P (map fst sibs))"
      using Cons.prems(1) by (auto split: if_splits)
    ultimately have "map_of sibs k = Some x" using Cons.IH Cons.prems(3) by blast
    then show ?thesis using False by (cases s) simp
  qed
qed

lemma strip_zeros_all_zero: "set v \<subseteq> {CHR 0x00} \<Longrightarrow> strip_zeros v = []"
  by (induction v) auto

lemma get_rsa_pk_nonempty:
  assumes "get_rsa_pk_from_canon_sexp keydata = Inr (n, e)"
  shows "n \<noteq> [] \<and> e \<noteq> []"
proof -
  from assms obtain w where "rsa_result w = Inr (n, e)"
    unfolding get_rsa_pk_from_canon_sexp_def
    by (auto split: sum.splits if_splits prod.splits)
  then show ?thesis by (auto simp: rsa_result_def split: if_splits)
qed

lemma snext_zero: "snext (''0:'' @ t) = (0, ''0:'' @ t)"
  by (simp add: snext_def digitp_def digit_val_def peek_Cons)

lemma sigval_hash_empty_name:
  "hash_algo_from_sigval g
       (Some (''(7:sig-val('' @ concat (map canon xs) @ '')'' @ ''(4:hash'' @ canon (Atom []) @ t))
     = 0"
proof -
  have sh: "snext (''4:hash'' @ ''0:'' @ t) = (4, ''hash'' @ ''0:'' @ t)"
    by (rule snext_hash)
  show ?thesis
    unfolding sigval_prefix using sh snext_zero [of t]
    by (simp add: peek_Cons smatch_def decimal_0)
qed

subsection \<open>The claims\<close>

text \<open>
  C7. The hex importer reports the length of the maximal leading run of hex digits,
  whatever follows it. Without a digit it returns no buffer. On \<open>f\<close> it returns the
  simple S-expression of the one byte 0x0f with one digit scanned, on \<open>ff!!\<close> that of
  the one byte 0xff with two digits scanned. With an odd number of digits the buffer is
  the one obtained with a digit \<open>0\<close> put in front of the line.
\<close>

theorem hex_import_boundary:
  "snd (make_simple_sexp_from_hexstr alloc_ok line) = length (takeWhile hexdigitp line)
   \<and> (takeWhile hexdigitp line = [] \<longrightarrow> fst (make_simple_sexp_from_hexstr alloc_ok line) = None)
   \<and> make_simple_sexp_from_hexstr alloc_ok [] = (None, 0)
   \<and> make_simple_sexp_from_hexstr True ''f''
       = (Some [CHR ''('', CHR ''1'', CHR '':'', CHR 0x0F, CHR '')''], 1)
   \<and> make_simple_sexp_from_hexstr True ''ff!!''
       = (Some [CHR ''('', CHR ''1'', CHR '':'', CHR 0xFF, CHR '')''], 2)
   \<and> (odd (length (takeWhile hexdigitp line)) \<longrightarrow>
        fst (make_simple_sexp_from_hexstr alloc_ok line)
          = fst (make_simple_sexp_from_hexstr alloc_ok (CHR ''0'' # line)))"
proof -
  have count: "snd (make_simple_sexp_from_hexstr alloc_ok line) = length (takeWhile hexdigitp line)"
    by (simp add: make_simple_sexp_from_hexstr_alt Let_def)
  have none: "takeWhile hexdigitp line = [] \<longrightarrow> fst (make_simple_sexp_from_hexstr alloc_ok line) = None"
    by (simp add: make_simple_sexp_from_hexstr_alt Let_def)
  have empty: "make_simple_sexp_from_hexstr alloc_ok [] = (None, 0)"
    by (simp add: make_simple_sexp_from_hexstr_def)
  have f: "make_simple_sexp_from_hexstr True ''f''
       = (Some [CHR ''('', CHR ''1'', CHR '':'', CHR 0x0F, CHR '')''], 1)"
    by code_simp
  have ff: "make_simple_sexp_from_hexstr True ''ff!!''
       = (Some [CHR ''('', CHR ''1'', CHR '':'', CHR 0xFF, CHR '')''], 2)"
    by code_simp
  have odd: "fst (make_simple_sexp_from_hexstr alloc_ok line)
          = fst (make_simple_sexp_from_hexstr alloc_ok (CHR ''0'' # line))"
    if o: "odd (length (takeWhile hexdigitp line))"
  proof -
    obtain a s where line: "line = a # s" and a: "hexdigitp a"
      using o by (cases line) (auto split: if_splits)
    define k where "k = length (takeWhile hexdigitp s)"
    have ev: "even k" using o by (simp add: line a k_def)
    have l1: "Suc (Suc k) div 2 = Suc (Suc (Suc k)) div 2" using ev by presburger
    show ?thesis
      using ev l1
      by (simp add: make_simple_sexp_from_hexstr_alt Let_def line a
          hexdigitp_zero xtoi_2_zero peek_def flip: k_def)
  qed
  from count none empty f ff odd show ?thesis by blast
qed

theorem hex_import_boundary_witness:
  "snd (make_simple_sexp_from_hexstr True ''abc!'') = 3
   \<and> fst (make_simple_sexp_from_hexstr True ''abc!'')
       = fst (make_simple_sexp_from_hexstr True ''0abc!'')
   \<and> fst (make_simple_sexp_from_hexstr True ''xyz'') = None"
  using hex_import_boundary [of True "''abc!''"] hex_import_boundary [of True "''xyz''"]
  by (simp add: hexdigitp_def digitp_def)

text \<open>
  C6. The algorithm-identity function returns a number on every path. It returns 0 when
  element 1 of the key cannot be read, when element 0 of that list is not data, when the
  name has 6 bytes or more, and when the registry maps the name to 0. Otherwise it
  returns the mapped identifier, replaced by the EdDSA identifier exactly when the
  mapped identifier is that of ECC, the list has a \<open>flags\<close> sub-list, and one of the
  elements of that sub-list after the first is the token \<open>eddsa\<close>. The variant on a
  buffer returns 0 when the buffer cannot be parsed.
\<close>

theorem get_pk_algo_never_fails:
  assumes ecc: "GCRY_PK_ECC api \<noteq> 0"
  shows "(gcry_sexp_nth api key 1 = None \<longrightarrow> get_pk_algo_from_key api key = 0)
   \<and> (\<forall>list. gcry_sexp_nth api key 1 = Some list \<longrightarrow> gcry_sexp_nth_data api list 0 = None
         \<longrightarrow> get_pk_algo_from_key api key = 0)
   \<and> (\<forall>list s. gcry_sexp_nth api key 1 = Some list \<longrightarrow> gcry_sexp_nth_data api list 0 = Some s
         \<longrightarrow> 6 \<le> length s \<longrightarrow> get_pk_algo_from_key api key = 0)
   \<and> (\<forall>list s. gcry_sexp_nth api key 1 = Some list \<longrightarrow> gcry_sexp_nth_data api list 0 = Some s
         \<longrightarrow> length s < 6 \<longrightarrow> gcry_pk_map_name api (c_string s) = 0
         \<longrightarrow> get_pk_algo_from_key api key = 0)
   \<and> (\<forall>list s. gcry_sexp_nth api key 1 = Some list \<longrightarrow> gcry_sexp_nth_data api list 0 = Some s
         \<longrightarrow> length s < 6
         \<longrightarrow> get_pk_algo_from_key api key =
              (if gcry_pk_map_name api (c_string s) = GCRY_PK_ECC api
                  \<and> (\<exists>l1 i. gcry_sexp_find_token api list ''flags'' = Some l1
                        \<and> 0 < i \<and> int i < gcry_sexp_length api l1
                        \<and> gcry_sexp_nth_data api l1 i = Some ''eddsa'')
               then GCRY_PK_EDDSA api
               else gcry_pk_map_name api (c_string s)))
   \<and> (\<forall>err. sscan keydata = Inl err \<longrightarrow> get_pk_algo_from_canon_sexp api sscan keydata = 0)"
proof -
  have rng: "(\<exists>i. 0 < i \<and> i \<le> nat (gcry_sexp_length api l1 - 1) \<and> P i)
      \<longleftrightarrow> (\<exists>i. 0 < i \<and> int i < gcry_sexp_length api l1 \<and> P i)" for l1 P
    by (rule ex_cong1) auto
  have c1: "gcry_sexp_nth api key 1 = None \<longrightarrow> get_pk_algo_from_key api key = 0"
    by (simp add: get_pk_algo_from_key_def)
  have c2: "\<forall>list. gcry_sexp_nth api key 1 = Some list \<longrightarrow> gcry_sexp_nth_data api list 0 = None
         \<longrightarrow> get_pk_algo_from_key api key = 0"
    by (simp add: get_pk_algo_from_key_def)
  have c3: "\<forall>list s. gcry_sexp_nth api key 1 = Some list \<longrightarrow> gcry_sexp_nth_data api list 0 = Some s
         \<longrightarrow> 6 \<le> length s \<longrightarrow> get_pk_algo_from_key api key = 0"
    by (simp add: get_pk_algo_from_key_def)
  have c4: "\<forall>list s. gcry_sexp_nth api key 1 = Some list \<longrightarrow> gcry_sexp_nth_data api list 0 = Some s
         \<longrightarrow> length s < 6 \<longrightarrow> gcry_pk_map_name api (c_string s) = 0
         \<longrightarrow> get_pk_algo_from_key api key = 0"
    using ecc by (simp add: get_pk_algo_from_key_def Let_def)
  have c5: "\<forall>list s. gcry_sexp_nth api key 1 = Some list \<longrightarrow> gcry_sexp_nth_data api list 0 = Some s
         \<longrightarrow> length s < 6
         \<longrightarrow> get_pk_algo_from_key api key =
              (if gcry_pk_map_name api (c_string s) = GCRY_PK_ECC api
                  \<and> (\<exists>l1 i. gcry_sexp_find_token api list ''flags'' = Some l1
                        \<and> 0 < i \<and> int i < gcry_sexp_length api l1
                        \<and> gcry_sexp_nth_data api l1 i = Some ''eddsa'')
               then GCRY_PK_EDDSA api
               else gcry_pk_map_name api (c_string s))"
    by (auto simp add: get_pk_algo_from_key_def Let_def eddsa_flag_loop_iff rng
        split: option.splits)
  have c6: "\<forall>err. sscan keydata = Inl err \<longrightarrow> get_pk_algo_from_canon_sexp api sscan keydata = 0"
    by (simp add: get_pk_algo_from_canon_sexp_def)
  from c1 c2 c3 c4 c5 c6 show ?thesis by blast
qed

theorem get_pk_algo_never_fails_witness:
  "get_pk_algo_from_key sample_api sample_ed_key = 303
   \<and> get_pk_algo_from_key sample_api (SList [Atom ''public-key'']) = 0
   \<and> get_pk_algo_from_key sample_api (SList [Atom ''public-key'', SList [Atom ''toolong'']]) = 0
   \<and> get_pk_algo_from_canon_sexp sample_api (\<lambda>k. Inl GPG_ERR_INV_SEXP) ''(3:abc'' = 0"
proof -
  have ecc: "GCRY_PK_ECC sample_api \<noteq> 0" by (simp add: sample_api_def)
  have ex: "\<exists>l1 i. sample_find_token
         (SList [Atom ''ecc'', SList [Atom ''curve'', Atom ''Ed25519''],
                 SList [Atom ''flags'', Atom ''eddsa''], SList [Atom ''q'', Atom ''abc'']])
         ''flags'' = Some l1
       \<and> 0 < i \<and> int i < sample_length l1 \<and> sample_nth_data l1 i = Some ''eddsa''"
    by (rule exI [of _ "SList [Atom ''flags'', Atom ''eddsa'']"], rule exI [of _ 1])
      (simp add: sample_find_token_def sample_nth_data_def sample_nth_def sample_length_def)
  show ?thesis
    using get_pk_algo_never_fails [OF ecc, of sample_ed_key "\<lambda>k. Inl GPG_ERR_INV_SEXP" "''(3:abc''"]
      get_pk_algo_never_fails [OF ecc, of "SList [Atom ''public-key'']"]
      get_pk_algo_never_fails [OF ecc, of "SList [Atom ''public-key'', SList [Atom ''toolong'']]"]
      ex
    by (simp add: sample_api_def sample_ed_key_def sample_nth_def sample_nth_data_def
        sample_map_name_def c_string_def)
qed

text \<open>
  C10. The keygrip bridge checks its output argument first: with a null grip pointer it
  returns the invalid-value error for every key buffer and every library, and no library
  call is made, so no parsed object is acquired and none has to be released.
\<close>

theorem keygrip_null_grip_no_acquire:
  "keygrip_from_canon_sexp api key None = (Inl GPG_ERR_INV_VALUE, [])"
  by (simp add: keygrip_from_canon_sexp_def)

theorem keygrip_null_grip_no_acquire_witness:
  "keygrip_from_canon_sexp
     \<lparr> gcry_sexp_sscan = (\<lambda>k. Inr k), gcry_pk_get_keygrip = (\<lambda>k. Some (take 20 k)) \<rparr>
     ''(10:public-key(3:rsa(1:n1:a)(1:e1:b)))'' None
   = (Inl GPG_ERR_INV_VALUE, [])"
  using keygrip_null_grip_no_acquire
    [of "\<lparr> gcry_sexp_sscan = (\<lambda>k. Inr k), gcry_pk_get_keygrip = (\<lambda>k. Some (take 20 k)) \<rparr>"
        "''(10:public-key(3:rsa(1:n1:a)(1:e1:b)))''"]
  by simp

text \<open>
  C8. With both inputs null the comparator returns 0; with exactly one input null it
  returns 1, which is not 0; in these three cases the result is a return value, not the
  fatal path.
\<close>

theorem cmp_simple_canon_sexp_null:
  "cmp_simple_canon_sexp None None = Returns 0
   \<and> cmp_simple_canon_sexp None (Some b) = Returns 1
   \<and> cmp_simple_canon_sexp (Some a) None = Returns 1
   \<and> cmp_simple_canon_sexp None None \<noteq> Log_bug
   \<and> cmp_simple_canon_sexp None (Some b) \<noteq> Log_bug
   \<and> cmp_simple_canon_sexp (Some a) None \<noteq> Log_bug"
  by (simp add: cmp_simple_canon_sexp_def)

theorem cmp_simple_canon_sexp_null_witness:
  "cmp_simple_canon_sexp None (Some ''(3:foo)'') = Returns 1
   \<and> cmp_simple_canon_sexp (Some ''(3:foo)'') None = Returns 1"
  using cmp_simple_canon_sexp_null [of "''(3:foo)''" "''(3:foo)''"]
  by simp

text \<open>
  The loop that skips to the end of the list, taken by itself and started at the depth of
  the list it is in: on a well-formed list at depth \<open>k\<close>, the tokenizer enters the
  list at depth \<open>k + 1\<close>, and the loop, started there, stops behind the closing
  parenthesis of the list at depth \<open>k\<close>. Whenever the loop succeeds from a starting
  depth of at least 1 it ends at the starting depth minus 1. When the input ends before
  the closing parenthesis of the list, the loop fails with the malformed-S-expression
  error.
\<close>

lemma skip_to_end_invariant:
  assumes k: "0 \<le> k"
  shows "parse_sexp \<lparr> buf = canon (SList xs) @ r, depth = k \<rparr>
       = Inr (\<lparr> buf = concat (map canon xs) @ '')'' @ r, depth = k + 1 \<rparr>, None)
   \<and> skip_to_end (k + 1) \<lparr> buf = concat (map canon xs) @ '')'' @ r, depth = k + 1 \<rparr>
       = Inr \<lparr> buf = r, depth = k \<rparr>
   \<and> (\<forall>ld c c'. 1 \<le> ld \<longrightarrow> ld \<le> depth c \<longrightarrow> skip_to_end ld c = Inr c'
         \<longrightarrow> depth c' = ld - 1)
   \<and> (\<forall>p q. p @ q = concat (map canon xs) @ '')'' \<longrightarrow> q \<noteq> []
         \<longrightarrow> skip_to_end (k + 1) \<lparr> buf = p, depth = k + 1 \<rparr> = Inl GPG_ERR_INV_SEXP)"
proof -
  have enter: "parse_sexp \<lparr> buf = canon (SList xs) @ r, depth = k \<rparr>
       = Inr (\<lparr> buf = concat (map canon xs) @ '')'' @ r, depth = k + 1 \<rparr>, None)"
    by (simp add: parse_sexp_open)
  have leave: "skip_to_end (k + 1) \<lparr> buf = concat (map canon xs) @ '')'' @ r, depth = k + 1 \<rparr>
       = Inr \<lparr> buf = r, depth = k \<rparr>"
    using skip_to_end_rest_of_list [OF k, of xs r] by simp
  have dep: "\<forall>ld c c'. 1 \<le> ld \<longrightarrow> ld \<le> depth c \<longrightarrow> skip_to_end ld c = Inr c'
         \<longrightarrow> depth c' = ld - 1"
    using skip_to_end_depth by blast
  have trunc: "\<forall>p q. p @ q = concat (map canon xs) @ '')'' \<longrightarrow> q \<noteq> []
         \<longrightarrow> skip_to_end (k + 1) \<lparr> buf = p, depth = k + 1 \<rparr> = Inl GPG_ERR_INV_SEXP"
    using skip_to_end_truncated [OF k] by blast
  from enter leave dep trunc show ?thesis by blast
qed

text \<open>
  C2. The walker of the key extractor on the well-formed key
  \<open>(public-key (rsa (x (y)) (n a) (e b)))\<close>. The component \<open>(x (y))\<close> is entered
  from depth 2. The body of the loop reads the one-byte name \<open>x\<close>, reads the opening
  parenthesis of the value as the value, which raises the depth to 4, and starts the
  skip to the end of the list from there. The skip stops behind the closing parenthesis
  of the value at depth 3: the closing parenthesis of the component is not consumed and
  the depth is not the depth 2 at which the component was entered. The walk goes on out
  of step, passes over the component \<open>n\<close> without reading its name, and the extraction
  fails with \<open>GPG_ERR_BAD_PUBKEY\<close> on a key that holds both \<open>n\<close> and \<open>e\<close>. The
  depth invariant of the claim does not hold for the walker here.
\<close>

theorem walker_skip_loses_depth:
  "canon (SList [Atom ''public-key'',
       SList [Atom ''rsa'', SList [Atom ''x'', SList [Atom ''y'']],
              SList [Atom ''n'', Atom ''a''], SList [Atom ''e'', Atom ''b'']]])
     = ''(10:public-key(3:rsa(1:x(1:y))(1:n1:a)(1:e1:b)))''
   \<and> parse_sexp \<lparr> buf = ''(1:x(1:y))(1:n1:a)(1:e1:b)))'', depth = 2 \<rparr>
     = Inr (\<lparr> buf = ''1:x(1:y))(1:n1:a)(1:e1:b)))'', depth = 3 \<rparr>, None)
   \<and> walk_body
       \<lparr> cur = \<lparr> buf = ''(1:x(1:y))(1:n1:a)(1:e1:b)))'', depth = 2 \<rparr>,
         rsa_n = None, rsa_e = None \<rparr>
       \<lparr> buf = ''1:x(1:y))(1:n1:a)(1:e1:b)))'', depth = 3 \<rparr> None
     = Inr \<lparr> cur = \<lparr> buf = '')(1:n1:a)(1:e1:b)))'', depth = 3 \<rparr>,
             rsa_n = None, rsa_e = None \<rparr>
   \<and> get_rsa_pk_from_canon_sexp ''(10:public-key(3:rsa(1:x(1:y))(1:n1:a)(1:e1:b)))''
     = Inl GPG_ERR_BAD_PUBKEY"
proof -
  have wf: "canon (SList [Atom ''public-key'',
       SList [Atom ''rsa'', SList [Atom ''x'', SList [Atom ''y'']],
              SList [Atom ''n'', Atom ''a''], SList [Atom ''e'', Atom ''b'']]])
     = ''(10:public-key(3:rsa(1:x(1:y))(1:n1:a)(1:e1:b)))''"
    by code_simp
  have enter: "parse_sexp \<lparr> buf = ''(1:x(1:y))(1:n1:a)(1:e1:b)))'', depth = 2 \<rparr>
     = Inr (\<lparr> buf = ''1:x(1:y))(1:n1:a)(1:e1:b)))'', depth = 3 \<rparr>, None)"
    using parse_sexp_open [of "''1:x(1:y))(1:n1:a)(1:e1:b)))''" 2] by simp
  have name: "parse_sexp \<lparr> buf = ''1:x(1:y))(1:n1:a)(1:e1:b)))'', depth = 3 \<rparr>
     = Inr (\<lparr> buf = ''(1:y))(1:n1:a)(1:e1:b)))'', depth = 3 \<rparr>, Some ''x'')"
    using parse_sexp_atom [of "''x''" "''(1:y))(1:n1:a)(1:e1:b)))''" 3]
    by (simp add: decimal_0)
  have val: "parse_sexp \<lparr> buf = ''(1:y))(1:n1:a)(1:e1:b)))'', depth = 3 \<rparr>
     = Inr (\<lparr> buf = ''1:y))(1:n1:a)(1:e1:b)))'', depth = 4 \<rparr>, None)"
    using parse_sexp_open [of "''1:y))(1:n1:a)(1:e1:b)))''" 3] by simp
  have sk: "skip_to_end 4 \<lparr> buf = ''1:y))(1:n1:a)(1:e1:b)))'', depth = 4 \<rparr>
     = Inr \<lparr> buf = '')(1:n1:a)(1:e1:b)))'', depth = 3 \<rparr>"
    using skip_to_end_rest_of_list [of 3 "[Atom ''y'']" "'')(1:n1:a)(1:e1:b)))''"]
    by (simp add: decimal_0)
  have body: "walk_body
       \<lparr> cur = \<lparr> buf = ''(1:x(1:y))(1:n1:a)(1:e1:b)))'', depth = 2 \<rparr>,
         rsa_n = None, rsa_e = None \<rparr>
       \<lparr> buf = ''1:x(1:y))(1:n1:a)(1:e1:b)))'', depth = 3 \<rparr> None
     = Inr \<lparr> cur = \<lparr> buf = '')(1:n1:a)(1:e1:b)))'', depth = 3 \<rparr>,
             rsa_n = None, rsa_e = None \<rparr>"
    by (simp add: walk_body_def walk_name_def name val sk mpi_known_def mpi_get_def)
  have all: "get_rsa_pk_from_canon_sexp ''(10:public-key(3:rsa(1:x(1:y))(1:n1:a)(1:e1:b)))''
     = Inl GPG_ERR_BAD_PUBKEY"
    by code_simp
  from wf enter body all show ?thesis by blast
qed

theorem walker_skip_loses_depth_witness:
  "depth (cur (projr (walk_body
       \<lparr> cur = \<lparr> buf = ''(1:x(1:y))(1:n1:a)(1:e1:b)))'', depth = 2 \<rparr>,
         rsa_n = None, rsa_e = None \<rparr>
       \<lparr> buf = ''1:x(1:y))(1:n1:a)(1:e1:b)))'', depth = 3 \<rparr> None))) = 3
   \<and> get_rsa_pk_from_canon_sexp ''(10:public-key(3:rsa(1:x(1:y))(1:n1:a)(1:e1:b)))''
     = Inl GPG_ERR_BAD_PUBKEY"
  using walker_skip_loses_depth by simp

text \<open>
  C5, as amended. In a sig-val expression whose well-formed parameter list is followed
  by a list that starts with the token \<open>hash\<close> and a name token, a name of 49 bytes or
  more makes the extractor return 0, and so does an empty name; a name of 1 to 48 bytes
  is handed to the registry. When no list follows the parameter list the extractor
  returns 0 as well: the source has one result, 0, for a name that is too long and for
  an absent tag, and no error of its own for the long name.
\<close>

theorem sigval_long_name_returns_zero:
  "hash_algo_from_sigval g
     (Some (''(7:sig-val('' @ concat (map canon xs) @ '')'' @ ''(4:hash'' @ canon (Atom name) @ t))
     = (if name = [] \<or> 49 \<le> length name then 0 else g (c_string name))
   \<and> hash_algo_from_sigval g (Some (''(7:sig-val('' @ concat (map canon xs) @ '')'' @ '')'')) = 0"
proof (cases "name = []")
  case True
  then show ?thesis using sigval_hash_empty_name [of g xs t] sigval_no_hash [of g xs] by simp
next
  case False
  then show ?thesis using sigval_hash_name [OF False, of g xs t] sigval_no_hash [of g xs] by simp
qed

theorem sigval_long_name_returns_zero_witness:
  "hash_algo_from_sigval sample_md_map_name
     (Some (''(7:sig-val(3:rsa(1:s3:abc))(4:hash49:'' @ replicate 49 (CHR ''a'') @ ''))'')) = 0
   \<and> hash_algo_from_sigval sample_md_map_name
     (Some ''(7:sig-val(3:rsa(1:s3:abc))(4:hash3:md5))'') = 1"
proof -
  have b: "concat (map canon [Atom ''rsa'', SList [Atom ''s'', Atom ''abc'']]) = ''3:rsa(1:s3:abc)''"
    by code_simp
  have d49: "decimal 49 = ''49''" by code_simp
  have c1: "canon (Atom (replicate 49 (CHR ''a''))) = ''49:'' @ replicate 49 (CHR ''a'')"
    by (simp add: d49)
  have c2: "canon (Atom ''md5'') = ''3:md5''" by code_simp
  have l: "49 \<le> length (replicate 49 (CHR ''a''))" by simp
  have m: "sample_md_map_name (c_string ''md5'') = 1"
    by (simp add: sample_md_map_name_def c_string_def)
  have a1: "hash_algo_from_sigval sample_md_map_name
     (Some (''(7:sig-val('' @ ''3:rsa(1:s3:abc)'' @ '')'' @ ''(4:hash''
            @ (''49:'' @ replicate 49 (CHR ''a'')) @ ''))'')) = 0"
    using sigval_long_name_returns_zero
      [of sample_md_map_name "[Atom ''rsa'', SList [Atom ''s'', Atom ''abc'']]"
        "replicate 49 (CHR ''a'')" "''))''", unfolded b c1, THEN conjunct1] l
    by (simp only: if_True simp_thms)
  have a2: "hash_algo_from_sigval sample_md_map_name
     (Some (''(7:sig-val('' @ ''3:rsa(1:s3:abc)'' @ '')'' @ ''(4:hash'' @ ''3:md5'' @ ''))'')) = 1"
    using sigval_long_name_returns_zero
      [of sample_md_map_name "[Atom ''rsa'', SList [Atom ''s'', Atom ''abc'']]"
        "''md5''" "''))''", unfolded b c2, THEN conjunct1]
    by (simp add: m)
  from a1 a2 show ?thesis by simp
qed

theorem sigval_long_name_counterexample:
  "hash_algo_from_sigval sample_md_map_name
     (Some ''(7:sig-val(3:rsa(1:s3:abc))(4:hash49:aaaaaaaaaaaaaaaaaaaaaaaaaaaaaaaaaaaaaaaaaaaaaaaaa))'')
   = hash_algo_from_sigval sample_md_map_name (Some ''(7:sig-val(3:rsa(1:s3:abc)))'')"
  by code_simp

text \<open>
  C3. The builder at a modulus of \<open>2 ^ 32\<close> bytes, the byte 1 followed by zero bytes:
  nothing is stripped and no zero byte is added, all \<open>2 ^ 32\<close> bytes are copied, and
  the length prefix written before them is \<open>0:\<close>, the length cut to an
  \<open>unsigned int\<close>, where the exact prefix is \<open>4294967296:\<close>. For buffers shorter
  than \<open>2 ^ 32 - 1\<close> bytes the output is exact (\<open>make_canon_sexp_exact\<close>).
\<close>

theorem rsa_builder_length_prefix_truncated:
  "make_canon_sexp_from_rsa_pk True (CHR 0x01 # replicate (2 ^ 32 - 1) (CHR 0x00)) [CHR 0x03]
   = Some (''(10:public-key(3:rsa(1:n0:'' @ CHR 0x01 # replicate (2 ^ 32 - 1) (CHR 0x00)
             @ '')(1:e1:'' @ [CHR 0x03] @ '')))'', 2 ^ 32 + 37)"
proof -
  define z where "z = replicate (2 ^ 32 - 1) (CHR 0x00)"
  have lz: "length z = 4294967295" by (simp add: z_def)
  have um: "uint_sum 4294967296 0 = 0" by (simp add: uint_sum_def)
  have ue: "uint_sum (Suc 0) 0 = 1" by (simp add: uint_sum_def)
  have xm: "mpi_extra (CHR 0x01 # z) = 0" by (simp add: mpi_extra_def)
  have xe: "mpi_extra [CHR 0x03] = 0" by (simp add: mpi_extra_def)
  have "make_canon_sexp_from_rsa_pk True (CHR 0x01 # z) [CHR 0x03]
   = Some (''(10:public-key(3:rsa(1:n0:'' @ CHR 0x01 # z @ '')(1:e1:'' @ [CHR 0x03] @ '')))'',
           2 ^ 32 + 37)"
    unfolding make_canon_sexp_from_rsa_pk_def Let_def
    by (simp add: xm xe um ue decimal_0 decimal_small part1_def part2_def part3_def lz)
  then show ?thesis unfolding z_def .
qed

text \<open>
  C1, as amended. For byte strings \<open>m\<close> and \<open>e\<close> shorter than \<open>2 ^ 32 - 1\<close> bytes
  the builder returns a buffer, and the extractor on that buffer returns the bytes of
  \<open>m\<close> and of \<open>e\<close> without their leading zero bytes when each of them holds a
  non-zero byte; when \<open>m\<close> or \<open>e\<close> holds no non-zero byte, the value zero, the
  extractor fails with \<open>GPG_ERR_BAD_PUBKEY\<close>.
\<close>

theorem rsa_round_trip:
  assumes "alloc_ok" "length m < 2 ^ 32 - 1" "length e < 2 ^ 32 - 1"
  shows "\<exists>keybuf len. make_canon_sexp_from_rsa_pk alloc_ok m e = Some (keybuf, len)
      \<and> get_rsa_pk_from_canon_sexp keybuf =
          (if strip_zeros m = [] \<or> strip_zeros e = [] then Inl GPG_ERR_BAD_PUBKEY
           else Inr (strip_zeros m, strip_zeros e))"
proof -
  have ok: "alloc_ok = True" using assms(1) by simp
  show ?thesis
    unfolding ok make_canon_sexp_exact [OF assms(2,3)]
    using round_trip_aux [of m e] by blast
qed

theorem rsa_round_trip_witness:
  "\<exists>keybuf len.
      make_canon_sexp_from_rsa_pk True [CHR 0x00, CHR 0x80, CHR 0x01] [CHR 0x01, CHR 0x00, CHR 0x01]
        = Some (keybuf, len)
      \<and> get_rsa_pk_from_canon_sexp keybuf = Inr ([CHR 0x80, CHR 0x01], [CHR 0x01, CHR 0x00, CHR 0x01])"
  using rsa_round_trip [of True "[CHR 0x00, CHR 0x80, CHR 0x01]" "[CHR 0x01, CHR 0x00, CHR 0x01]"]
  by simp

theorem rsa_round_trip_counterexample:
  "make_canon_sexp_from_rsa_pk True [CHR 0x00] [CHR 0x03]
     = Some (''(10:public-key(3:rsa(1:n1:'' @ [CHR 0x00] @ '')(1:e1:'' @ [CHR 0x03] @ '')))'', 38)
   \<and> get_rsa_pk_from_canon_sexp
       (''(10:public-key(3:rsa(1:n1:'' @ [CHR 0x00] @ '')(1:e1:'' @ [CHR 0x03] @ '')))'')
     = Inl GPG_ERR_BAD_PUBKEY"
proof -
  have b: "make_canon_sexp_from_rsa_pk True [CHR 0x00] [CHR 0x03]
     = Some (''(10:public-key(3:rsa(1:n1:'' @ [CHR 0x00] @ '')(1:e1:'' @ [CHR 0x03] @ '')))'', 38)"
    unfolding make_canon_sexp_from_rsa_pk_def Let_def
    by (simp add: mpi_extra_def uint_sum_def decimal_0 part1_def part2_def part3_def)
  have g: "get_rsa_pk_from_canon_sexp
       (''(10:public-key(3:rsa(1:n1:'' @ [CHR 0x00] @ '')(1:e1:'' @ [CHR 0x03] @ '')))'')
     = Inl GPG_ERR_BAD_PUBKEY"
    by code_simp
  from b g show ?thesis by blast
qed

text \<open>
  C4, as amended. On a key of the expected shape, every element of the \<open>rsa\<close> list a
  list of a name token, a value token and any further well-formed elements: when the
  name \<open>n\<close> or the name \<open>e\<close> is the name of more than one of these lists, the
  extraction fails with \<open>GPG_ERR_DUP_VALUE\<close>; when neither is, and one of the two names
  is the name of none of the lists, the extraction fails with \<open>GPG_ERR_BAD_PUBKEY\<close>.
  On every input, the final check on a state of the walk in which \<open>n\<close> or \<open>e\<close> is
  not bound gives \<open>GPG_ERR_BAD_PUBKEY\<close>, and the step of the walk on a one-byte name
  \<open>n\<close> or \<open>e\<close> that is bound already gives \<open>GPG_ERR_DUP_VALUE\<close>.
\<close>

theorem rsa_duplicate_and_missing:
  "(\<not> distinct (filter wanted (map fst sibs)) \<longrightarrow>
      get_rsa_pk_from_canon_sexp (rsa_key sibs t) = Inl GPG_ERR_DUP_VALUE)
   \<and> (distinct (filter wanted (map fst sibs)) \<longrightarrow>
        (''n'' \<notin> fst ` set sibs \<or> ''e'' \<notin> fst ` set sibs) \<longrightarrow>
        get_rsa_pk_from_canon_sexp (rsa_key sibs t) = Inl GPG_ERR_BAD_PUBKEY)
   \<and> (\<forall>w. rsa_n w = None \<or> rsa_e w = None \<longrightarrow> rsa_result w = Inl GPG_ERR_BAD_PUBKEY)
   \<and> (\<forall>w c2 name. mpi_known name \<longrightarrow> mpi_get w name \<noteq> None \<longrightarrow>
          walk_name w c2 (Some [name]) = Inl GPG_ERR_DUP_VALUE)"
proof -
  have dup: "\<not> distinct (filter wanted (map fst sibs)) \<longrightarrow>
      get_rsa_pk_from_canon_sexp (rsa_key sibs t) = Inl GPG_ERR_DUP_VALUE"
    by (simp add: get_rsa_pk_rsa_key)
  have miss: "distinct (filter wanted (map fst sibs)) \<longrightarrow>
        (''n'' \<notin> fst ` set sibs \<or> ''e'' \<notin> fst ` set sibs) \<longrightarrow>
        get_rsa_pk_from_canon_sexp (rsa_key sibs t) = Inl GPG_ERR_BAD_PUBKEY"
    by (auto simp add: get_rsa_pk_rsa_key map_of_eq_None_iff [symmetric] split: option.splits)
  have fin: "\<forall>w. rsa_n w = None \<or> rsa_e w = None \<longrightarrow> rsa_result w = Inl GPG_ERR_BAD_PUBKEY"
    by (simp add: rsa_result_def)
  have step: "\<forall>w c2 name. mpi_known name \<longrightarrow> mpi_get w name \<noteq> None \<longrightarrow>
          walk_name w c2 (Some [name]) = Inl GPG_ERR_DUP_VALUE"
    by (simp add: walk_name_def)
  from dup miss fin step show ?thesis by blast
qed

theorem rsa_duplicate_and_missing_witness:
  "get_rsa_pk_from_canon_sexp ''(10:public-key(3:rsa(1:n1:a)(1:e1:b)(1:n1:c)))''
     = Inl GPG_ERR_DUP_VALUE
   \<and> get_rsa_pk_from_canon_sexp ''(10:public-key(3:rsa(1:n1:a)(4:name5:value)))''
     = Inl GPG_ERR_BAD_PUBKEY"
proof -
  have k1: "rsa_key [(''n'', ''a'', []), (''e'', ''b'', []), (''n'', ''c'', [])] []
      = ''(10:public-key(3:rsa(1:n1:a)(1:e1:b)(1:n1:c)))''"
    by code_simp
  have k2: "rsa_key [(''n'', ''a'', []), (''name'', ''value'', [])] []
      = ''(10:public-key(3:rsa(1:n1:a)(4:name5:value)))''"
    by code_simp
  have a1: "get_rsa_pk_from_canon_sexp ''(10:public-key(3:rsa(1:n1:a)(1:e1:b)(1:n1:c)))''
     = Inl GPG_ERR_DUP_VALUE"
    using rsa_duplicate_and_missing
      [of "[(''n'', ''a'', []), (''e'', ''b'', []), (''n'', ''c'', [])]" "[]", unfolded k1]
    by (simp add: wanted_def)
  have a2: "get_rsa_pk_from_canon_sexp ''(10:public-key(3:rsa(1:n1:a)(4:name5:value)))''
     = Inl GPG_ERR_BAD_PUBKEY"
    using rsa_duplicate_and_missing
      [of "[(''n'', ''a'', []), (''name'', ''value'', [])]" "[]", unfolded k2]
    by (simp add: wanted_def)
  from a1 a2 show ?thesis by blast
qed

theorem rsa_duplicate_counterexample:
  "get_rsa_pk_from_canon_sexp ''(10:public-key(3:rsa(1:n1:a)1:x(1:n1:b)))''
     = Inl GPG_ERR_UNKNOWN_SEXP
   \<and> get_rsa_pk_from_canon_sexp ''(10:public-key(3:rsa(1:n)(1:n1:a)(1:e1:b)))''
     = Inl GPG_ERR_BAD_PUBKEY"
  by code_simp

text \<open>
  C9. On a key of the expected shape in which neither \<open>n\<close> nor \<open>e\<close> is
  the name of more than one list: when the value token of \<open>n\<close> or of \<open>e\<close> consists
  of zero bytes only, stripping the leading zero bytes leaves no byte and the
  extraction fails with \<open>GPG_ERR_BAD_PUBKEY\<close>, the error of a missing component. On
  every input, byte ranges that the extraction returns are not empty, and the final
  check on a state of the walk in which \<open>n\<close> or \<open>e\<close> is bound to no byte gives
  \<open>GPG_ERR_BAD_PUBKEY\<close>.
\<close>

theorem rsa_zero_component_rejected:
  assumes "distinct (filter wanted (map fst sibs))" "(name, v, ex) \<in> set sibs"
    "wanted name" "set v \<subseteq> {CHR 0x00}"
  shows "strip_zeros v = []
   \<and> get_rsa_pk_from_canon_sexp (rsa_key sibs t) = Inl GPG_ERR_BAD_PUBKEY
   \<and> (\<forall>keydata n e. get_rsa_pk_from_canon_sexp keydata = Inr (n, e) \<longrightarrow> n \<noteq> [] \<and> e \<noteq> [])
   \<and> (\<forall>w. rsa_n w = Some [] \<or> rsa_e w = Some [] \<longrightarrow> rsa_result w = Inl GPG_ERR_BAD_PUBKEY)"
proof -
  have z: "strip_zeros v = []" using assms(4) by (rule strip_zeros_all_zero)
  have m: "map_of sibs name = Some (v, ex)"
    using assms(1,2,3) by (rule map_of_wanted)
  have "name = ''n'' \<or> name = ''e''" using assms(3) by (simp add: wanted_def)
  then have g: "get_rsa_pk_from_canon_sexp (rsa_key sibs t) = Inl GPG_ERR_BAD_PUBKEY"
    using m z assms(1) by (auto simp add: get_rsa_pk_rsa_key split: option.splits)
  have ne: "\<forall>keydata n e. get_rsa_pk_from_canon_sexp keydata = Inr (n, e) \<longrightarrow> n \<noteq> [] \<and> e \<noteq> []"
    using get_rsa_pk_nonempty by blast
  have fin: "\<forall>w. rsa_n w = Some [] \<or> rsa_e w = Some [] \<longrightarrow> rsa_result w = Inl GPG_ERR_BAD_PUBKEY"
    by (auto simp add: rsa_result_def)
  from z g ne fin show ?thesis by blast
qed

theorem rsa_zero_component_rejected_witness:
  "get_rsa_pk_from_canon_sexp
     (''(10:public-key(3:rsa(1:n2:'' @ [CHR 0x00, CHR 0x00] @ '')(1:e1:'' @ [CHR 0x03] @ '')))'')
     = Inl GPG_ERR_BAD_PUBKEY"
proof -
  have k: "rsa_key [(''n'', [CHR 0x00, CHR 0x00], []), (''e'', [CHR 0x03], [])] []
      = ''(10:public-key(3:rsa(1:n2:'' @ [CHR 0x00, CHR 0x00] @ '')(1:e1:'' @ [CHR 0x03] @ '')))''"
    by code_simp
  have d: "distinct (filter wanted (map fst [(''n'', [CHR 0x00, CHR 0x00], []), (''e'', [CHR 0x03], [])]))"
    by (simp add: wanted_def)
  have i: "(''n'', [CHR 0x00, CHR 0x00], []) \<in> set [(''n'', [CHR 0x00, CHR 0x00], []), (''e'', [CHR 0x03], [])]"
    by simp
  have w: "wanted ''n''" by (simp add: wanted_def)
  have s: "set [CHR 0x00, CHR 0x00] \<subseteq> {CHR 0x00}" by simp
  show ?thesis
    using rsa_zero_component_rejected [OF d i w s, of "[]", unfolded k] by blast
qed

end
